theory Spec2Isabelle
  imports Main
begin

section \<open>The links table: schema and store\<close>

text \<open>
  The repository declares one table, \<open>links\<close>, twice: as a Drizzle table in
  \<open>db/schema.ts\<close> and as the SQL of the generated migration
  (\<open>CREATE TABLE "links"\<close>). Both declarations are transcribed below as data, column
  by column, and the store (PostgreSQL) is modelled as an interpreter of such a
  declaration: it coerces the supplied values to the column types, fills in defaults,
  and checks NOT NULL, PRIMARY KEY and UNIQUE.
  The two btree indexes (\<open>user_id_idx\<close>, \<open>short_code_idx\<close>) are not unique indexes
  and constrain nothing, so they are left out.
\<close>

datatype col_type = PgText | PgVarchar nat | PgTimestampTz

record column =
  col_name :: string
  col_type :: col_type
  primary_key :: bool
  not_null :: bool
  is_unique :: bool
  default_now :: bool
  on_update_now :: bool

type_synonym table_def = "column list"

text \<open>
  \<open>db/schema.ts\<close>. A column gets \<open>not_null\<close> from \<open>.notNull()\<close>, \<open>is_unique\<close> from
  \<open>.unique()\<close>, \<open>default_now\<close> from \<open>.defaultNow()\<close> and \<open>on_update_now\<close> from
  \<open>.$onUpdate(...)\<close>, which no column of the table calls.
\<close>

definition links :: table_def where
  "links =
    [\<lparr>col_name = ''id'', col_type = PgText, primary_key = True, not_null = False,
      is_unique = False, default_now = False, on_update_now = False\<rparr>,
     \<lparr>col_name = ''user_id'', col_type = PgText, primary_key = False, not_null = True,
      is_unique = False, default_now = False, on_update_now = False\<rparr>,
     \<lparr>col_name = ''url'', col_type = PgText, primary_key = False, not_null = True,
      is_unique = False, default_now = False, on_update_now = False\<rparr>,
     \<lparr>col_name = ''short_code'', col_type = PgVarchar 20, primary_key = False, not_null = True,
      is_unique = True, default_now = False, on_update_now = False\<rparr>,
     \<lparr>col_name = ''created_at'', col_type = PgTimestampTz, primary_key = False, not_null = True,
      is_unique = False, default_now = True, on_update_now = False\<rparr>,
     \<lparr>col_name = ''updated_at'', col_type = PgTimestampTz, primary_key = False, not_null = True,
      is_unique = False, default_now = True, on_update_now = False\<rparr>]"

text \<open>
  The migration: \<open>"id" text PRIMARY KEY NOT NULL\<close>, \<open>"short_code" text NOT NULL\<close> with
  \<open>CONSTRAINT "links_short_code_unique" UNIQUE("short_code")\<close>, and the two timestamps
  \<open>DEFAULT now() NOT NULL\<close>. The short code is \<open>text\<close> here, not \<open>varchar(20)\<close>.
\<close>

definition links_sql :: table_def where
  "links_sql =
    [\<lparr>col_name = ''id'', col_type = PgText, primary_key = True, not_null = True,
      is_unique = False, default_now = False, on_update_now = False\<rparr>,
     \<lparr>col_name = ''user_id'', col_type = PgText, primary_key = False, not_null = True,
      is_unique = False, default_now = False, on_update_now = False\<rparr>,
     \<lparr>col_name = ''url'', col_type = PgText, primary_key = False, not_null = True,
      is_unique = False, default_now = False, on_update_now = False\<rparr>,
     \<lparr>col_name = ''short_code'', col_type = PgText, primary_key = False, not_null = True,
      is_unique = True, default_now = False, on_update_now = False\<rparr>,
     \<lparr>col_name = ''created_at'', col_type = PgTimestampTz, primary_key = False, not_null = True,
      is_unique = False, default_now = True, on_update_now = False\<rparr>,
     \<lparr>col_name = ''updated_at'', col_type = PgTimestampTz, primary_key = False, not_null = True,
      is_unique = False, default_now = True, on_update_now = False\<rparr>]"

text \<open>A primary key is NOT NULL and UNIQUE by itself.\<close>

definition must_be_present :: "column \<Rightarrow> bool" where
  "must_be_present c = (primary_key c \<or> not_null c)"

definition must_be_unique :: "column \<Rightarrow> bool" where
  "must_be_unique c = (primary_key c \<or> is_unique c)"

definition column_named :: "table_def \<Rightarrow> string \<Rightarrow> column option" where
  "column_named td n = find (\<lambda>c. col_name c = n) td"

subsection \<open>Values and rows\<close>

text \<open>
  A cell is NULL, a text or a timestamp (milliseconds since the epoch). A row lists its
  cells by column name, in the order of the table's columns. The values of an insert
  or of an update's \<open>set\<close> are a list of pairs as well: a column that is left out is
  absent from the list, which is not the same as supplying NULL.
\<close>

datatype val = VNull | VText string | VTime int

type_synonym row = "(string \<times> val) list"

type_synonym table = "row list"

definition cell :: "row \<Rightarrow> string \<Rightarrow> val" where
  "cell r n = (case map_of r n of Some v \<Rightarrow> v | None \<Rightarrow> VNull)"

text \<open>The fields of a \<open>Link\<close> (the \<open>$inferSelect\<close> type) read from a row.\<close>

definition link_id :: "row \<Rightarrow> val" where
  "link_id r = cell r ''id''"

definition userId :: "row \<Rightarrow> val" where
  "userId r = cell r ''user_id''"

definition url :: "row \<Rightarrow> val" where
  "url r = cell r ''url''"

definition shortCode :: "row \<Rightarrow> val" where
  "shortCode r = cell r ''short_code''"

definition createdAt :: "row \<Rightarrow> val" where
  "createdAt r = cell r ''created_at''"

definition updatedAt :: "row \<Rightarrow> val" where
  "updatedAt r = cell r ''updated_at''"

text \<open>A row of \<open>links\<close> with all six cells present, as the store keeps it.\<close>

definition link_row :: "string \<Rightarrow> string \<Rightarrow> string \<Rightarrow> string \<Rightarrow> int \<Rightarrow> int \<Rightarrow> row" where
  "link_row ident uid u code created updated =
    [(''id'', VText ident), (''user_id'', VText uid), (''url'', VText u),
     (''short_code'', VText code), (''created_at'', VTime created), (''updated_at'', VTime updated)]"

subsection \<open>Errors of the store\<close>

text \<open>
  The SQLSTATE classes the store can answer with: 42703 (a column that the table does
  not have), 42804 (a value of the wrong type), 22001 (a string longer than
  \<open>varchar(n)\<close> allows), 23502 (NULL in a NOT NULL column) and 23505 (a duplicate in a
  primary key or unique column). Each carries the column it is about.
\<close>

datatype db_error =
    UndefinedColumn string
  | DatatypeMismatch string
  | StringTooLong string
  | NotNullViolation string
  | UniqueViolation string

subsection \<open>Insert\<close>

text \<open>
  Assignment to \<open>varchar(n)\<close>: a longer string is an error unless everything beyond
  the first \<open>n\<close> characters is a space, in which case the string is cut to \<open>n\<close>.
\<close>

definition coerce :: "column \<Rightarrow> val \<Rightarrow> db_error + val" where
  "coerce c v =
    (case v of
       VNull \<Rightarrow> Inr VNull
     | VText s \<Rightarrow>
         (case col_type c of
            PgText \<Rightarrow> Inr (VText s)
          | PgVarchar n \<Rightarrow>
              if length s \<le> n then Inr (VText s)
              else if list_all (\<lambda>ch. ch = CHR '' '') (drop n s) then Inr (VText (take n s))
              else Inl (StringTooLong (col_name c))
          | PgTimestampTz \<Rightarrow> Inl (DatatypeMismatch (col_name c)))
     | VTime t \<Rightarrow>
         (case col_type c of
            PgTimestampTz \<Rightarrow> Inr (VTime t)
          | _ \<Rightarrow> Inl (DatatypeMismatch (col_name c))))"

definition default_val :: "column \<Rightarrow> int \<Rightarrow> val" where
  "default_val c now = (if default_now c then VTime now else VNull)"

definition supplied :: "column \<Rightarrow> int \<Rightarrow> (string \<times> val) list \<Rightarrow> val" where
  "supplied c now vals =
    (case map_of vals (col_name c) of Some v \<Rightarrow> v | None \<Rightarrow> default_val c now)"

fun build_row :: "column list \<Rightarrow> int \<Rightarrow> (string \<times> val) list \<Rightarrow> db_error + row" where
  "build_row [] now vals = Inr []"
| "build_row (c # cs) now vals =
    (case coerce c (supplied c now vals) of
       Inl e \<Rightarrow> Inl e
     | Inr v \<Rightarrow>
         (case build_row cs now vals of
            Inl e \<Rightarrow> Inl e
          | Inr r \<Rightarrow> Inr ((col_name c, v) # r)))"

fun first_error :: "('a \<Rightarrow> db_error option) \<Rightarrow> 'a list \<Rightarrow> db_error option" where
  "first_error f [] = None"
| "first_error f (x # xs) = (case f x of Some e \<Rightarrow> Some e | None \<Rightarrow> first_error f xs)"

definition check_known :: "table_def \<Rightarrow> string \<times> val \<Rightarrow> db_error option" where
  "check_known td kv =
    (case column_named td (fst kv) of None \<Rightarrow> Some (UndefinedColumn (fst kv)) | Some c \<Rightarrow> None)"

definition check_not_null :: "row \<Rightarrow> column \<Rightarrow> db_error option" where
  "check_not_null r c =
    (if must_be_present c \<and> cell r (col_name c) = VNull
     then Some (NotNullViolation (col_name c)) else None)"

text \<open>NULLs never collide in a unique column.\<close>

definition check_unique :: "table \<Rightarrow> row \<Rightarrow> column \<Rightarrow> db_error option" where
  "check_unique t r c =
    (if must_be_unique c \<and> cell r (col_name c) \<noteq> VNull
        \<and> list_ex (\<lambda>r'. cell r' (col_name c) = cell r (col_name c)) t
     then Some (UniqueViolation (col_name c)) else None)"

text \<open>
  \<open>db.insert(table).values(vals).returning()\<close>: the statement is atomic; it either
  appends one row, which it returns, or answers with the first error and leaves the
  table as it was. \<open>insert_row\<close> is the statement without \<open>.returning()\<close>.
\<close>

definition insert_returning ::
  "table_def \<Rightarrow> int \<Rightarrow> (string \<times> val) list \<Rightarrow> table \<Rightarrow> db_error + (row \<times> table)" where
  "insert_returning td now vals t =
    (case first_error (check_known td) vals of
       Some e \<Rightarrow> Inl e
     | None \<Rightarrow>
        (case build_row td now vals of
           Inl e \<Rightarrow> Inl e
         | Inr r \<Rightarrow>
            (case first_error (check_not_null r) td of
               Some e \<Rightarrow> Inl e
             | None \<Rightarrow>
                (case first_error (check_unique t r) td of
                   Some e \<Rightarrow> Inl e
                 | None \<Rightarrow> Inr (r, t @ [r])))))"

definition insert_row :: "table_def \<Rightarrow> int \<Rightarrow> (string \<times> val) list \<Rightarrow> table \<Rightarrow> db_error + table" where
  "insert_row td now vals t =
    (case insert_returning td now vals t of Inl e \<Rightarrow> Inl e | Inr (r, t') \<Rightarrow> Inr t')"

subsection \<open>Delete and update\<close>

text \<open>
  \<open>.where(eq(column, v))\<close>: the rows whose cell equals \<open>v\<close>; a comparison with NULL
  selects nothing.
\<close>

definition matches :: "string \<Rightarrow> val \<Rightarrow> row \<Rightarrow> bool" where
  "matches n v r = (v \<noteq> VNull \<and> cell r n = v)"

definition delete_rows :: "string \<Rightarrow> val \<Rightarrow> table \<Rightarrow> table" where
  "delete_rows n v t = filter (\<lambda>r. \<not> matches n v r) t"

text \<open>
  \<open>db.update(table).set(sets).where(eq(column, v))\<close>: a column named in \<open>sets\<close> takes
  the new value; any other column keeps its cell, unless the schema gives it an
  on-update value. The statement is atomic: every changed row is checked for NOT NULL
  and the changed table for its unique columns, and on an error nothing is changed.
\<close>

fun update_cells :: "column list \<Rightarrow> int \<Rightarrow> (string \<times> val) list \<Rightarrow> row \<Rightarrow> db_error + row" where
  "update_cells [] now sets r = Inr []"
| "update_cells (c # cs) now sets r =
    (case (case map_of sets (col_name c) of
             Some v \<Rightarrow> coerce c v
           | None \<Rightarrow> Inr (if on_update_now c then VTime now else cell r (col_name c))) of
       Inl e \<Rightarrow> Inl e
     | Inr v \<Rightarrow>
         (case update_cells cs now sets r of
            Inl e \<Rightarrow> Inl e
          | Inr r' \<Rightarrow> Inr ((col_name c, v) # r')))"

fun update_all :: "table_def \<Rightarrow> int \<Rightarrow> (string \<times> val) list \<Rightarrow> string \<Rightarrow> val \<Rightarrow> table \<Rightarrow> db_error + table" where
  "update_all td now sets n v [] = Inr []"
| "update_all td now sets n v (r # rs) =
    (if matches n v r then
       (case update_cells td now sets r of
          Inl e \<Rightarrow> Inl e
        | Inr r' \<Rightarrow>
           (case first_error (check_not_null r') td of
              Some e \<Rightarrow> Inl e
            | None \<Rightarrow>
               (case update_all td now sets n v rs of
                  Inl e \<Rightarrow> Inl e
                | Inr rs' \<Rightarrow> Inr (r' # rs'))))
     else
       (case update_all td now sets n v rs of
          Inl e \<Rightarrow> Inl e
        | Inr rs' \<Rightarrow> Inr (r # rs')))"

definition present_cells :: "table \<Rightarrow> string \<Rightarrow> val list" where
  "present_cells t n = filter (\<lambda>v. v \<noteq> VNull) (map (\<lambda>r. cell r n) t)"

definition check_unique_column :: "table \<Rightarrow> column \<Rightarrow> db_error option" where
  "check_unique_column t c =
    (if must_be_unique c \<and> \<not> distinct (present_cells t (col_name c))
     then Some (UniqueViolation (col_name c)) else None)"

definition update_rows :: "table_def \<Rightarrow> int \<Rightarrow> (string \<times> val) list \<Rightarrow> string \<Rightarrow> val \<Rightarrow> table \<Rightarrow> db_error + table" where
  "update_rows td now sets n v t =
    (case first_error (check_known td) sets of
       Some e \<Rightarrow> Inl e
     | None \<Rightarrow>
        (case update_all td now sets n v t of
           Inl e \<Rightarrow> Inl e
         | Inr t' \<Rightarrow>
            (case first_error (check_unique_column t') td of
               Some e \<Rightarrow> Inl e
             | None \<Rightarrow> Inr t')))"

subsection \<open>Sequences of statements\<close>

datatype db_op =
    Insert int "(string \<times> val) list"
  | Delete string val
  | Update int "(string \<times> val) list" string val

fun apply_op :: "table_def \<Rightarrow> db_op \<Rightarrow> table \<Rightarrow> db_error + table" where
  "apply_op td (Insert now vals) t = insert_row td now vals t"
| "apply_op td (Delete n v) t = Inr (delete_rows n v t)"
| "apply_op td (Update now sets n v) t = update_rows td now sets n v t"

text \<open>A statement that fails leaves the table as it was.\<close>

definition step :: "table_def \<Rightarrow> table \<Rightarrow> db_op \<Rightarrow> table" where
  "step td t op = (case apply_op td op t of Inl e \<Rightarrow> t | Inr t' \<Rightarrow> t')"

definition run :: "table_def \<Rightarrow> db_op list \<Rightarrow> table \<Rightarrow> table" where
  "run td ops t = foldl (step td) t ops"

text \<open>What the constraints of a table definition say about a table.\<close>

definition consistent :: "table_def \<Rightarrow> table \<Rightarrow> bool" where
  "consistent td t =
    list_all (\<lambda>c. (must_be_unique c \<longrightarrow> distinct (present_cells t (col_name c)))
               \<and> (must_be_present c \<longrightarrow> list_all (\<lambda>r. cell r (col_name c) \<noteq> VNull) t)) td"

text \<open>Some row of the table holds \<open>v\<close> in column \<open>n\<close>.\<close>

definition collides :: "string \<Rightarrow> val \<Rightarrow> table \<Rightarrow> bool" where
  "collides n v t = list_ex (\<lambda>r. cell r n = v) t"

text \<open>What the column types say about a table, and what the model asks of a declaration.\<close>

definition fits :: "column \<Rightarrow> val \<Rightarrow> bool" where
  "fits c v =
    (case v of
       VNull \<Rightarrow> True
     | VText s \<Rightarrow>
         (case col_type c of
            PgText \<Rightarrow> True
          | PgVarchar n \<Rightarrow> length s \<le> n
          | PgTimestampTz \<Rightarrow> False)
     | VTime t \<Rightarrow> col_type c = PgTimestampTz)"

definition well_typed :: "table_def \<Rightarrow> table \<Rightarrow> bool" where
  "well_typed td t = list_all (\<lambda>r. list_all (\<lambda>c. fits c (cell r (col_name c))) td) t"

definition well_formed :: "table_def \<Rightarrow> bool" where
  "well_formed td =
    (distinct (map col_name td)
     \<and> list_all (\<lambda>c. on_update_now c \<longrightarrow> col_type c = PgTimestampTz) td)"

section \<open>The seed script\<close>

text \<open>
  \<open>seedExampleLinks\<close> inserts the entries of \<open>exampleLinks\<close> one at a time, each with a
  fresh \<open>nanoid()\<close> and two \<open>new Date()\<close> readings. \<open>nanoid\<close> and the clocks are outside
  the program, so they are parameters: \<open>nanoid e k\<close> is the identifier drawn in the
  \<open>k\<close>-th iteration, \<open>newDate e\<close> lists the readings of the script's clock in the order
  they are taken, and \<open>dbNow e k\<close> is the store's \<open>now()\<close> at the \<open>k\<close>-th statement.
\<close>

record env =
  nanoid :: "nat \<Rightarrow> string"
  newDate :: "nat \<Rightarrow> int"
  dbNow :: "nat \<Rightarrow> int"

definition seed_userId :: string where
  "seed_userId = ''user_39muGGbHjuaOt6ll2so3UuE2c8y''"

text \<open>The pairs are \<open>(url, shortCode)\<close>.\<close>

definition exampleLinks :: "(string \<times> string) list" where
  "exampleLinks =
    [(''https://github.com/facebook/react'', ''react-gh''),
     (''https://nextjs.org/docs'', ''next-docs''),
     (''https://tailwindcss.com/docs/installation'', ''tw-install''),
     (''https://www.typescriptlang.org/docs/'', ''ts-docs''),
     (''https://drizzle.team/docs/overview'', ''drizzle-ov''),
     (''https://ui.shadcn.com/docs'', ''shadcn-ui''),
     (''https://clerk.com/docs/quickstarts/nextjs'', ''clerk-next''),
     (''https://vercel.com/docs'', ''vercel-doc''),
     (''https://neon.tech/docs/introduction'', ''neon-intro''),
     (''https://lucide.dev/icons/'', ''lucide-ico'')]"

definition seed_values :: "env \<Rightarrow> nat \<Rightarrow> string \<times> string \<Rightarrow> (string \<times> val) list" where
  "seed_values e k link =
    [(''id'', VText (nanoid e k)),
     (''user_id'', VText seed_userId),
     (''url'', VText (fst link)),
     (''short_code'', VText (snd link)),
     (''created_at'', VTime (newDate e (2 * k))),
     (''updated_at'', VTime (newDate e (2 * k + 1)))]"

text \<open>
  The loop awaits each insert; an error leaves the loop (the \<open>catch\<close> logs and throws
  it again), with the rows inserted so far kept: there is no transaction.
\<close>

fun seed_loop :: "table_def \<Rightarrow> env \<Rightarrow> nat \<Rightarrow> (string \<times> string) list \<Rightarrow> table \<Rightarrow> db_error option \<times> table" where
  "seed_loop td e k [] t = (None, t)"
| "seed_loop td e k (link # rest) t =
    (case insert_row td (dbNow e k) (seed_values e k link) t of
       Inl err \<Rightarrow> (Some err, t)
     | Inr t' \<Rightarrow> seed_loop td e (Suc k) rest t')"

definition seedExampleLinks :: "table_def \<Rightarrow> env \<Rightarrow> table \<Rightarrow> db_error option \<times> table" where
  "seedExampleLinks td e t = seed_loop td e 0 exampleLinks t"

text \<open>Lowercase letters, digits and the hyphen.\<close>

definition seed_code_char :: "char \<Rightarrow> bool" where
  "seed_code_char ch = (ch \<in> set ''abcdefghijklmnopqrstuvwxyz0123456789-'')"

section \<open>The short-code allocator\<close>

text \<open>
  Modelled from the spec: the error kinds of \<open>allocate\<close> (section 7 of the
  specification). The repository has no implementation of the allocator; only the
  table it would write to, the seed script, and documentation whose examples call a
  \<open>createLink\<close> action and test it.
\<close>

datatype alloc_error =
    InvalidURL
  | InvalidCustomCode
  | CodeAlreadyExists
  | AllocationExhausted
  | StoreUnavailable

text \<open>
  Modelled from the spec: what the persistence call can answer instead of a row
  (section 7): a refusal by a constraint of the table, or "an error unrelated to
  uniqueness", of which two are told apart here. \<open>InvalidByteSequence\<close> is SQLSTATE
  22021, the store's answer to a text that contains the character NUL; \<open>StoreFault\<close>
  stands for every other failure, with its code or message: the store "could not be
  reached", or refuses the statement for a reason the table declaration does not show.
\<close>

datatype store_failure =
    Refused db_error
  | InvalidByteSequence
  | StoreFault string

text \<open>
  Modelled from the spec: what \<open>allocate\<close> takes from outside, which the specification
  leaves open. \<open>valid_url\<close> is the URL-validity predicate ("a pure predicate,
  independent of persistence"), \<open>candidate k\<close> the \<open>k\<close>-th random code drawn,
  \<open>fresh_id k\<close> the identifier generated for the \<open>k\<close>-th insert, \<open>store_now k\<close> the
  store's clock at that insert, and \<open>store_fault k\<close> the failure, if any, that keeps
  the \<open>k\<close>-th insert from reaching the table.
\<close>

record alloc_env =
  valid_url :: "string \<Rightarrow> bool"
  candidate :: "nat \<Rightarrow> string"
  fresh_id :: "nat \<Rightarrow> string"
  store_now :: "nat \<Rightarrow> int"
  store_fault :: "nat \<Rightarrow> string option"

text \<open>
  Modelled from the spec: the character class of a custom code, "URL-safe: letters,
  digits, hyphen".
\<close>

definition url_safe :: "char \<Rightarrow> bool" where
  "url_safe ch =
    (ch \<in> set ''abcdefghijklmnopqrstuvwxyzABCDEFGHIJKLMNOPQRSTUVWXYZ0123456789-'')"

text \<open>
  Modelled from the spec: a custom code "must match a restricted character class and
  satisfy the length bound", the bound being the 20 characters of the persisted
  short code.
\<close>

definition valid_custom_code :: "string \<Rightarrow> bool" where
  "valid_custom_code c = (list_all url_safe c \<and> length c \<le> 20)"

text \<open>Modelled from the spec: the bound on generation attempts, "reference: 5 attempts".\<close>

definition retry_bound :: nat where
  "retry_bound = 5"

text \<open>
  Modelled from the spec: the values of the one insert an attempt makes. The
  timestamps are left to the store ("server-assigned \<open>id\<close>, \<open>createdAt\<close>,
  \<open>updatedAt\<close>").
\<close>

definition link_values :: "string \<Rightarrow> string \<Rightarrow> string \<Rightarrow> string \<Rightarrow> (string \<times> val) list" where
  "link_values ident uid u code =
    [(''id'', VText ident), (''user_id'', VText uid), (''url'', VText u),
     (''short_code'', VText code)]"

text \<open>
  Modelled from the spec: an "error unrelated to uniqueness" that an allocation can
  bring about by its input. The URL, the user identifier and the custom code come from
  the caller, and the store refuses a text that contains NUL whatever the column
  (SQLSTATE 22021). The table declaration does
  not show this refusal, and its interpretation above does not make it: the seed script
  sends literals and \<open>nanoid()\<close> identifiers only, which hold no NUL. The allocator
  sends what its caller gives it, so the check is made at its persistence call.
\<close>

definition nul_free :: "string \<Rightarrow> bool" where
  "nul_free s = (CHR 0x00 \<notin> set s)"

text \<open>
  Modelled from the spec: the values of an insert that the store does not refuse for
  their bytes: none of the texts among them contains NUL.
\<close>

definition sendable :: "(string \<times> val) list \<Rightarrow> bool" where
  "sendable vals =
    list_all (\<lambda>kv. case snd kv of VText s \<Rightarrow> nul_free s | _ \<Rightarrow> True) vals"

text \<open>
  Modelled from the spec: the persistence call of the \<open>k\<close>-th attempt, "a single atomic
  insert". A failure to reach the store comes first, then the refusal of a text with
  NUL, then the constraints of the table; in every failing case the table is as it
  was.
\<close>

definition store_insert ::
  "table_def \<Rightarrow> alloc_env \<Rightarrow> nat \<Rightarrow> (string \<times> val) list \<Rightarrow> table
    \<Rightarrow> store_failure + (row \<times> table)" where
  "store_insert td e k vals t =
    (case store_fault e k of
       Some m \<Rightarrow> Inl (StoreFault m)
     | None \<Rightarrow>
         if \<not> sendable vals then Inl InvalidByteSequence
         else
           (case insert_returning td (store_now e k) vals t of
              Inl err \<Rightarrow> Inl (Refused err)
            | Inr p \<Rightarrow> Inr p))"

text \<open>
  Modelled from the spec: the \<open>k\<close>-th attempt of an allocation, which inserts \<open>code\<close>
  for the URL \<open>u\<close> and the user \<open>uid\<close> under a newly generated identifier.
\<close>

definition attempt ::
  "table_def \<Rightarrow> alloc_env \<Rightarrow> string \<Rightarrow> string \<Rightarrow> string \<Rightarrow> nat \<Rightarrow> table
    \<Rightarrow> store_failure + (row \<times> table)" where
  "attempt td e u uid code k t = store_insert td e k (link_values (fresh_id e k) uid u code) t"

text \<open>
  Modelled from the spec: how a failure of the store is read. "A uniqueness-constraint
  violation on the \<open>shortCode\<close> column is the only error kind that triggers in-allocator
  retry logic"; "every other store error is surfaced immediately".
\<close>

definition is_code_collision :: "store_failure \<Rightarrow> bool" where
  "is_code_collision f = (f = Refused (UniqueViolation ''short_code''))"

text \<open>
  Modelled from the spec: steps 4 and 5 of \<open>allocate\<close>, the generation loop.
  \<open>generate td e u uid n k t\<close> has \<open>n\<close> attempts left and has made \<open>k\<close>. The result is
  the Link or the error, the table, and the number of inserts attempted.
\<close>

fun generate ::
  "table_def \<Rightarrow> alloc_env \<Rightarrow> string \<Rightarrow> string \<Rightarrow> nat \<Rightarrow> nat \<Rightarrow> table
    \<Rightarrow> (alloc_error + row) \<times> table \<times> nat" where
  "generate td e u uid 0 k t = (Inl AllocationExhausted, t, k)"
| "generate td e u uid (Suc n) k t =
    (case attempt td e u uid (candidate e k) k t of
       Inr (r, t') \<Rightarrow> (Inr r, t', Suc k)
     | Inl f \<Rightarrow>
         if is_code_collision f then generate td e u uid n (Suc k) t
         else (Inl StoreUnavailable, t, Suc k))"

text \<open>
  Modelled from the spec: \<open>allocate(url, userId, customCode?)\<close>, steps 1 to 6 of
  section 4.1 in their order: the URL is validated, then a supplied custom code, then
  either the custom code is inserted once or the generation loop runs.
\<close>

definition allocate ::
  "table_def \<Rightarrow> alloc_env \<Rightarrow> string \<Rightarrow> string \<Rightarrow> string option \<Rightarrow> table
    \<Rightarrow> (alloc_error + row) \<times> table \<times> nat" where
  "allocate td e u uid customCode t =
    (if \<not> valid_url e u then (Inl InvalidURL, t, 0)
     else
       (case customCode of
          Some c \<Rightarrow>
            if \<not> valid_custom_code c then (Inl InvalidCustomCode, t, 0)
            else
              (case attempt td e u uid c 0 t of
                 Inr (r, t') \<Rightarrow> (Inr r, t', 1)
               | Inl f \<Rightarrow>
                   (Inl (if is_code_collision f then CodeAlreadyExists else StoreUnavailable),
                    t, 1))
        | None \<Rightarrow> generate td e u uid retry_bound 0 t))"

text \<open>
  Modelled from the spec: the code that the \<open>k\<close>-th attempt of an allocation inserts,
  the custom code when one is supplied and the \<open>k\<close>-th candidate otherwise.
\<close>

definition code_at :: "alloc_env \<Rightarrow> string option \<Rightarrow> nat \<Rightarrow> string" where
  "code_at e customCode k = (case customCode of Some c \<Rightarrow> c | None \<Rightarrow> candidate e k)"

text \<open>
  Modelled from the spec: what each result of \<open>allocate\<close> stands for (sections 4.1 and
  7). \<open>classified e u uid customCode t res t' a\<close> says that the result \<open>res\<close>, the table
  \<open>t'\<close> and the number \<open>a\<close> of inserts attempted are accounted for by the input and by
  the answers of the store: every attempt before the last met a collision of the short
  code; a Link is the row that the store accepted at the last attempt, with the
  generated identifier, the user, the URL, the code and the store's clock in it, and it
  is the one row added; an error leaves the table as it was and has the reason its
  kind names.
\<close>

definition classified ::
  "alloc_env \<Rightarrow> string \<Rightarrow> string \<Rightarrow> string option \<Rightarrow> table
    \<Rightarrow> (alloc_error + row) \<Rightarrow> table \<Rightarrow> nat \<Rightarrow> bool" where
  "classified e u uid customCode t res t' a =
    (a \<le> retry_bound
     \<and> (\<forall>k. Suc k < a \<longrightarrow>
           attempt links e u uid (code_at e customCode k) k t
             = Inl (Refused (UniqueViolation ''short_code'')))
     \<and> (case res of
          Inr r \<Rightarrow>
            0 < a \<and> valid_url e u \<and> (\<forall>c. customCode = Some c \<longrightarrow> valid_custom_code c)
            \<and> attempt links e u uid (code_at e customCode (a - 1)) (a - 1) t = Inr (r, t')
            \<and> r = link_row (fresh_id e (a - 1)) uid u (take 20 (code_at e customCode (a - 1)))
                    (store_now e (a - 1)) (store_now e (a - 1))
            \<and> t' = t @ [r]
        | Inl InvalidURL \<Rightarrow> t' = t \<and> a = 0 \<and> \<not> valid_url e u
        | Inl InvalidCustomCode \<Rightarrow>
            t' = t \<and> a = 0 \<and> valid_url e u
            \<and> (\<exists>c. customCode = Some c \<and> \<not> valid_custom_code c)
        | Inl CodeAlreadyExists \<Rightarrow>
            t' = t \<and> a = 1 \<and> valid_url e u
            \<and> (\<exists>c. customCode = Some c \<and> valid_custom_code c)
            \<and> attempt links e u uid (code_at e customCode 0) 0 t
                 = Inl (Refused (UniqueViolation ''short_code''))
        | Inl AllocationExhausted \<Rightarrow>
            t' = t \<and> a = retry_bound \<and> valid_url e u \<and> customCode = None
            \<and> attempt links e u uid (code_at e customCode (a - 1)) (a - 1) t
                 = Inl (Refused (UniqueViolation ''short_code''))
        | Inl StoreUnavailable \<Rightarrow>
            t' = t \<and> 0 < a \<and> valid_url e u
            \<and> (\<forall>c. customCode = Some c \<longrightarrow> valid_custom_code c)
            \<and> (\<exists>f. attempt links e u uid (code_at e customCode (a - 1)) (a - 1) t = Inl f
                     \<and> \<not> is_code_collision f)))"

subsection \<open>Two allocations at once\<close>





section \<open>Properties of the store\<close>

subsection \<open>Constraints hold after every statement\<close>

lemma first_error_None: "first_error f xs = None \<longleftrightarrow> (\<forall>x\<in>set xs. f x = None)"
  by (induction xs) (auto split: option.splits)

lemma insert_row_Inr:
  assumes "insert_row td now vals t = Inr t'"
  obtains r where "t' = t @ [r]" "build_row td now vals = Inr r"
    "\<forall>c\<in>set td. check_not_null r c = None" "\<forall>c\<in>set td. check_unique t r c = None"
  using assms unfolding insert_row_def insert_returning_def
  by (auto split: option.splits sum.splits simp: first_error_None)

lemma present_cells_append: "present_cells (t @ [r]) n = present_cells t n @ (if cell r n = VNull then [] else [cell r n])"
  by (simp add: present_cells_def)

lemma set_present_cells: "set (present_cells t n) = {v. v \<noteq> VNull \<and> v \<in> (\<lambda>r. cell r n) ` set t}"
  by (auto simp: present_cells_def)

lemma consistent_insert:
  assumes "consistent td t" "insert_row td now vals t = Inr t'"
  shows "consistent td t'"
proof -
  from assms(2) obtain r where r: "t' = t @ [r]"
    "\<forall>c\<in>set td. check_not_null r c = None" "\<forall>c\<in>set td. check_unique t r c = None"
    by (rule insert_row_Inr)
  show ?thesis
    unfolding consistent_def list_all_iff
  proof (intro ballI conjI impI)
    fix c assume c: "c \<in> set td" and u: "must_be_unique c"
    from assms(1) c u have d: "distinct (present_cells t (col_name c))"
      by (simp add: consistent_def list_all_iff)
    from r(3) c have "check_unique t r c = None" by blast
    with u have "cell r (col_name c) = VNull \<or> cell r (col_name c) \<notin> (\<lambda>r'. cell r' (col_name c)) ` set t"
      by (auto simp: check_unique_def list_ex_iff split: if_splits)
    with d show "distinct (present_cells t' (col_name c))"
      by (auto simp: r(1) present_cells_append set_present_cells)
  next
    fix c x assume c: "c \<in> set td" and p: "must_be_present c" and x: "x \<in> set t'"
    from assms(1) c p have "\<forall>r\<in>set t. cell r (col_name c) \<noteq> VNull"
      by (simp add: consistent_def list_all_iff)
    moreover from r(2) c have "check_not_null r c = None" by blast
    with p have "cell r (col_name c) \<noteq> VNull"
      by (auto simp: check_not_null_def split: if_splits)
    ultimately show "cell x (col_name c) \<noteq> VNull" using x by (auto simp: r(1))
  qed
qed

lemma distinct_present_cells_filter:
  "distinct (present_cells t n) \<Longrightarrow> distinct (present_cells (filter P t) n)"
  by (induction t) (auto simp: present_cells_def)

lemma consistent_delete: "consistent td t \<Longrightarrow> consistent td (delete_rows n v t)"
  unfolding consistent_def list_all_iff delete_rows_def
  by (auto intro: distinct_present_cells_filter)

lemma update_all_not_null:
  assumes "update_all td now sets n v t = Inr t'" "c \<in> set td" "must_be_present c"
    "\<forall>r\<in>set t. cell r (col_name c) \<noteq> VNull"
  shows "\<forall>r\<in>set t'. cell r (col_name c) \<noteq> VNull"
  using assms
proof (induction t arbitrary: t')
  case Nil
  then show ?case by simp
next
  case (Cons r rs)
  then show ?case
    by (auto split: if_splits sum.splits option.splits simp: first_error_None check_not_null_def)
qed

lemma consistent_update:
  assumes "consistent td t" "update_rows td now sets n v t = Inr t'"
  shows "consistent td t'"
proof -
  from assms(2) have ua: "update_all td now sets n v t = Inr t'"
    and un: "\<forall>c\<in>set td. check_unique_column t' c = None"
    unfolding update_rows_def
    by (auto split: option.splits sum.splits simp: first_error_None)
  show ?thesis
    unfolding consistent_def list_all_iff
  proof (intro ballI conjI impI)
    fix c assume "c \<in> set td" "must_be_unique c"
    with un show "distinct (present_cells t' (col_name c))"
      by (auto simp: check_unique_column_def split: if_splits)
  next
    fix c x assume c: "c \<in> set td" "must_be_present c" and x: "x \<in> set t'"
    with assms(1) have "\<forall>r\<in>set t. cell r (col_name c) \<noteq> VNull"
      by (simp add: consistent_def list_all_iff)
    from update_all_not_null[OF ua c this] x show "cell x (col_name c) \<noteq> VNull" by blast
  qed
qed

lemma consistent_step: "consistent td t \<Longrightarrow> consistent td (step td t op)"
  by (cases op) (auto simp: step_def split: sum.splits
      intro: consistent_insert consistent_delete consistent_update)

lemma consistent_run: "consistent td t \<Longrightarrow> consistent td (run td ops t)"
  unfolding run_def by (induction ops arbitrary: t) (auto intro: consistent_step)

lemma consistent_empty: "consistent td []"
  by (simp add: consistent_def present_cells_def list_all_iff)

lemma consistent_column:
  assumes "consistent td t" "c \<in> set td" "must_be_unique c" "must_be_present c"
  shows "distinct (map (\<lambda>r. cell r (col_name c)) t)"
proof -
  from assms have d: "distinct (present_cells t (col_name c))"
    and p: "\<forall>r\<in>set t. cell r (col_name c) \<noteq> VNull"
    by (simp_all add: consistent_def list_all_iff)
  from p have "present_cells t (col_name c) = map (\<lambda>r. cell r (col_name c)) t"
    by (simp add: present_cells_def)
  with d show ?thesis by simp
qed

subsection \<open>Cells fit their column types\<close>

lemma coerce_fits: "coerce c v = Inr v' \<Longrightarrow> fits c v'"
  by (auto simp: coerce_def fits_def split: val.splits col_type.splits if_splits)

lemma build_row_names: "build_row td now vals = Inr r \<Longrightarrow> map fst r = map col_name td"
  by (induction td arbitrary: r) (auto split: sum.splits)

lemma build_row_cell:
  assumes "build_row td now vals = Inr r" "distinct (map col_name td)" "c \<in> set td"
  shows "coerce c (supplied c now vals) = Inr (cell r (col_name c))"
  using assms
proof (induction td arbitrary: r)
  case Nil
  then show ?case by simp
next
  case (Cons d ds)
  from Cons.prems(1) obtain v r' where
    v: "coerce d (supplied d now vals) = Inr v" and r': "build_row ds now vals = Inr r'"
    and r: "r = (col_name d, v) # r'"
    by (auto split: sum.splits)
  show ?case
  proof (cases "c = d")
    case True
    with v r show ?thesis by (simp add: cell_def)
  next
    case False
    with Cons.prems(3) have c: "c \<in> set ds" by simp
    with Cons.prems(2) have ne: "col_name c \<noteq> col_name d"
      by (metis distinct.simps(2) image_eqI list.simps(9) set_map)
    from Cons.IH[OF r' _ c] Cons.prems(2) have "coerce c (supplied c now vals) = Inr (cell r' (col_name c))"
      by simp
    with ne r show ?thesis by (simp add: cell_def)
  qed
qed

lemma update_cells_cell:
  assumes "update_cells td now sets r = Inr r'" "distinct (map col_name td)" "c \<in> set td"
  shows "(case map_of sets (col_name c) of
            Some v \<Rightarrow> coerce c v = Inr (cell r' (col_name c))
          | None \<Rightarrow> cell r' (col_name c) = (if on_update_now c then VTime now else cell r (col_name c)))"
  using assms
proof (induction td arbitrary: r')
  case Nil
  then show ?case by simp
next
  case (Cons d ds)
  from Cons.prems(1) obtain v r'' where
    v: "(case map_of sets (col_name d) of Some v \<Rightarrow> coerce d v
          | None \<Rightarrow> Inr (if on_update_now d then VTime now else cell r (col_name d))) = Inr v"
    and r'': "update_cells ds now sets r = Inr r''"
    and r': "r' = (col_name d, v) # r''"
    by (auto split: sum.splits)
  show ?case
  proof (cases "c = d")
    case True
    with v r' show ?thesis by (auto simp: cell_def split: option.splits)
  next
    case False
    with Cons.prems(3) have c: "c \<in> set ds" by simp
    with Cons.prems(2) have ne: "col_name c \<noteq> col_name d"
      by (metis distinct.simps(2) image_eqI list.simps(9) set_map)
    from ne r' have "cell r' (col_name c) = cell r'' (col_name c)"
      by (simp add: cell_def)
    moreover from Cons.prems(2) have "distinct (map col_name ds)" by simp
    ultimately show ?thesis using Cons.IH[OF r'' _ c] by (auto split: option.splits)
  qed
qed

lemma well_typed_insert:
  assumes "well_typed td t" "well_formed td" "insert_row td now vals t = Inr t'"
  shows "well_typed td t'"
proof -
  from assms(3) obtain r where r: "t' = t @ [r]" "build_row td now vals = Inr r"
    by (rule insert_row_Inr)
  from assms(2) have d: "distinct (map col_name td)" by (simp add: well_formed_def)
  have "\<forall>c\<in>set td. fits c (cell r (col_name c))"
    using build_row_cell[OF r(2) d] coerce_fits by blast
  with assms(1) r(1) show ?thesis
    by (simp add: well_typed_def list_all_iff)
qed

lemma well_typed_delete: "well_typed td t \<Longrightarrow> well_typed td (delete_rows n v t)"
  by (simp add: well_typed_def delete_rows_def list_all_iff)

lemma update_cells_fits:
  assumes "update_cells td now sets r = Inr r'" "well_formed td" "c \<in> set td"
    "fits c (cell r (col_name c))"
  shows "fits c (cell r' (col_name c))"
proof -
  from assms(2) have d: "distinct (map col_name td)"
    and o: "on_update_now c \<longrightarrow> col_type c = PgTimestampTz"
    using assms(3) by (simp_all add: well_formed_def list_all_iff)
  show ?thesis
  proof (cases "map_of sets (col_name c)")
    case None
    with update_cells_cell[OF assms(1) d assms(3)]
    have "cell r' (col_name c) = (if on_update_now c then VTime now else cell r (col_name c))"
      by simp
    with o assms(4) show ?thesis by (simp add: fits_def)
  next
    case (Some v)
    with update_cells_cell[OF assms(1) d assms(3)]
    have "coerce c v = Inr (cell r' (col_name c))" by simp
    then show ?thesis by (rule coerce_fits)
  qed
qed

lemma well_typed_update_all:
  assumes "update_all td now sets n v t = Inr t'" "well_formed td" "well_typed td t"
  shows "well_typed td t'"
  using assms
proof (induction t arbitrary: t')
  case Nil
  then show ?case by (simp add: well_typed_def)
next
  case (Cons r rs)
  from Cons.prems(3) have r: "\<forall>c\<in>set td. fits c (cell r (col_name c))" and rs: "well_typed td rs"
    by (simp_all add: well_typed_def list_all_iff)
  show ?case
  proof (cases "matches n v r")
    case True
    with Cons.prems(1) obtain r' rs' where
      r': "update_cells td now sets r = Inr r'" and rs': "update_all td now sets n v rs = Inr rs'"
      and t': "t' = r' # rs'"
      by (auto split: sum.splits option.splits)
    from update_cells_fits[OF r' Cons.prems(2)] r
    have "\<forall>c\<in>set td. fits c (cell r' (col_name c))" by blast
    moreover from Cons.IH[OF rs' Cons.prems(2) rs] have "well_typed td rs'" .
    ultimately show ?thesis by (simp add: t' well_typed_def list_all_iff)
  next
    case False
    with Cons.prems(1) obtain rs' where
      rs': "update_all td now sets n v rs = Inr rs'" and t': "t' = r # rs'"
      by (auto split: sum.splits)
    from Cons.IH[OF rs' Cons.prems(2) rs] r show ?thesis
      by (simp add: t' well_typed_def list_all_iff)
  qed
qed

lemma well_typed_update:
  assumes "well_typed td t" "well_formed td" "update_rows td now sets n v t = Inr t'"
  shows "well_typed td t'"
proof -
  from assms(3) have "update_all td now sets n v t = Inr t'"
    by (auto simp: update_rows_def split: option.splits sum.splits)
  from well_typed_update_all[OF this assms(2,1)] show ?thesis .
qed

lemma well_typed_step: "well_typed td t \<Longrightarrow> well_formed td \<Longrightarrow> well_typed td (step td t op)"
  by (cases op) (auto simp: step_def split: sum.splits
      intro: well_typed_insert well_typed_delete well_typed_update)

lemma well_typed_run: "well_typed td t \<Longrightarrow> well_formed td \<Longrightarrow> well_typed td (run td ops t)"
  unfolding run_def by (induction ops arbitrary: t) (auto intro: well_typed_step)

lemma reachable_cell:
  assumes "well_formed td" "c \<in> set td" "must_be_present c" "r \<in> set (run td ops [])"
  shows "cell r (col_name c) \<noteq> VNull \<and> fits c (cell r (col_name c))"
proof -
  have "consistent td (run td ops [])" by (rule consistent_run[OF consistent_empty])
  with assms(2,3,4) have "cell r (col_name c) \<noteq> VNull"
    by (auto simp: consistent_def list_all_iff)
  moreover have "well_typed td (run td ops [])"
    by (rule well_typed_run[OF _ assms(1)]) (simp add: well_typed_def)
  with assms(2,4) have "fits c (cell r (col_name c))"
    by (auto simp: well_typed_def list_all_iff)
  ultimately show ?thesis ..
qed

subsection \<open>The two declarations of links\<close>

lemma well_formed_links: "well_formed links" "well_formed links_sql"
  by (simp_all add: well_formed_def links_def links_sql_def)

lemma short_code_in_links:
  "\<exists>c \<in> set links. col_name c = ''short_code'' \<and> must_be_unique c \<and> must_be_present c"
  "\<exists>c \<in> set links_sql. col_name c = ''short_code'' \<and> must_be_unique c \<and> must_be_present c"
  by (simp_all add: links_def links_sql_def must_be_unique_def must_be_present_def)

lemma short_code_varchar:
  "\<exists>c \<in> set links. col_name c = ''short_code'' \<and> col_type c = PgVarchar 20 \<and> must_be_present c"
  by (simp add: links_def must_be_present_def)

lemma id_in_links:
  "\<exists>c \<in> set links. col_name c = ''id'' \<and> col_type c = PgText \<and> must_be_present c \<and> \<not> default_now c"
  "\<exists>c \<in> set links_sql. col_name c = ''id'' \<and> col_type c = PgText \<and> must_be_present c \<and> \<not> default_now c"
  by (simp_all add: links_def links_sql_def must_be_present_def)

lemma timestamp_columns:
  "\<exists>c \<in> set links. col_name c = ''created_at'' \<and> default_now c \<and> \<not> on_update_now c"
  "\<exists>c \<in> set links. col_name c = ''updated_at'' \<and> default_now c \<and> \<not> on_update_now c"
  "\<exists>c \<in> set links_sql. col_name c = ''created_at'' \<and> default_now c \<and> \<not> on_update_now c"
  "\<exists>c \<in> set links_sql. col_name c = ''updated_at'' \<and> default_now c \<and> \<not> on_update_now c"
  by (simp_all add: links_def links_sql_def)

lemma default_columns:
  "\<exists>c. column_named links ''id'' = Some c \<and> \<not> default_now c"
  "\<exists>c. column_named links_sql ''id'' = Some c \<and> \<not> default_now c"
  "\<exists>c. column_named links ''created_at'' = Some c \<and> default_now c"
  "\<exists>c. column_named links_sql ''created_at'' = Some c \<and> default_now c"
  "\<exists>c. column_named links ''updated_at'' = Some c \<and> default_now c"
  "\<exists>c. column_named links_sql ''updated_at'' = Some c \<and> default_now c"
  by (simp_all add: column_named_def links_def links_sql_def)

lemma distinct_short_codes:
  assumes "td = links \<or> td = links_sql"
  shows "distinct (map shortCode (run td ops []))"
proof -
  have c: "consistent td (run td ops [])" by (rule consistent_run[OF consistent_empty])
  from assms short_code_in_links obtain col where
    "col \<in> set td" "col_name col = ''short_code''" "must_be_unique col" "must_be_present col"
    by blast
  from consistent_column[OF c this(1,3,4)] this(2) show ?thesis
    by (simp add: shortCode_def[abs_def])
qed

subsection \<open>Evaluating statements\<close>

lemmas store_eval = run_def step_def insert_row_def insert_returning_def links_def links_sql_def check_known_def column_named_def
  check_not_null_def check_unique_def must_be_present_def must_be_unique_def cell_def coerce_def supplied_def default_val_def
  delete_rows_def matches_def update_rows_def check_unique_column_def present_cells_def

lemma cell_Nil: "cell [] n = VNull"
  by (simp add: cell_def)

lemma cell_Cons: "cell ((k, v) # r) n = (if k = n then v else cell r n)"
  by (simp add: cell_def)

lemmas insert_eval = insert_row_def insert_returning_def check_known_def column_named_def
  check_not_null_def check_unique_def must_be_present_def must_be_unique_def cell_Nil cell_Cons
  coerce_def supplied_def default_val_def

lemma collides_Nil: "collides n v [] = False"
  by (simp add: collides_def)

lemma collides_Cons: "collides n v (r # t) = (cell r n = v \<or> collides n v t)"
  by (simp add: collides_def)

lemma collides_append: "collides n v (t @ [r]) = (collides n v t \<or> cell r n = v)"
  by (auto simp: collides_def list_ex_iff)

lemma link_row_cells:
  "cell (link_row i uid u c ca ua) ''id'' = VText i"
  "cell (link_row i uid u c ca ua) ''short_code'' = VText c"
  by (simp_all add: link_row_def cell_Cons)

lemma insert_six_links:
  assumes "length c \<le> 20"
  shows "insert_returning links now
     [(''id'', VText i), (''user_id'', VText uid), (''url'', VText u), (''short_code'', VText c),
      (''created_at'', VTime a), (''updated_at'', VTime b)] t
   = (if collides ''id'' (VText i) t then Inl (UniqueViolation ''id'')
      else if collides ''short_code'' (VText c) t then Inl (UniqueViolation ''short_code'')
      else Inr ([(''id'', VText i), (''user_id'', VText uid), (''url'', VText u), (''short_code'', VText c),
      (''created_at'', VTime a), (''updated_at'', VTime b)], t @ [[(''id'', VText i), (''user_id'', VText uid), (''url'', VText u), (''short_code'', VText c),
      (''created_at'', VTime a), (''updated_at'', VTime b)]]))"
  using assms by (simp add: insert_eval links_def collides_def)

lemma insert_six_links_sql:
  shows "insert_returning links_sql now
     [(''id'', VText i), (''user_id'', VText uid), (''url'', VText u), (''short_code'', VText c),
      (''created_at'', VTime a), (''updated_at'', VTime b)] t
   = (if collides ''id'' (VText i) t then Inl (UniqueViolation ''id'')
      else if collides ''short_code'' (VText c) t then Inl (UniqueViolation ''short_code'')
      else Inr ([(''id'', VText i), (''user_id'', VText uid), (''url'', VText u), (''short_code'', VText c),
      (''created_at'', VTime a), (''updated_at'', VTime b)], t @ [[(''id'', VText i), (''user_id'', VText uid), (''url'', VText u), (''short_code'', VText c),
      (''created_at'', VTime a), (''updated_at'', VTime b)]]))"
  by (simp add: insert_eval links_sql_def collides_def)

lemma insert_four_links:
  assumes "length c \<le> 20"
  shows "insert_returning links now
     [(''id'', VText i), (''user_id'', VText uid), (''url'', VText u), (''short_code'', VText c)] t
   = (if collides ''id'' (VText i) t then Inl (UniqueViolation ''id'')
      else if collides ''short_code'' (VText c) t then Inl (UniqueViolation ''short_code'')
      else Inr ([(''id'', VText i), (''user_id'', VText uid), (''url'', VText u), (''short_code'', VText c),
      (''created_at'', VTime now), (''updated_at'', VTime now)], t @ [[(''id'', VText i), (''user_id'', VText uid), (''url'', VText u), (''short_code'', VText c),
      (''created_at'', VTime now), (''updated_at'', VTime now)]]))"
  using assms by (simp add: insert_eval links_def collides_def)

lemma insert_returning_appends:
  "insert_returning td now vals t = Inr (r, t') \<Longrightarrow> t' = t @ [r]"
  by (auto simp: insert_returning_def split: option.splits sum.splits)

subsection \<open>Defaults and updates\<close>

lemma insert_default_cell:
  assumes "insert_row td now vals t = Inr t'" "well_formed td" "c \<in> set td"
    "map_of vals (col_name c) = None" "default_now c"
  shows "cell (last t') (col_name c) = VTime now"
proof -
  from assms(1) obtain r where r: "t' = t @ [r]" "build_row td now vals = Inr r"
    by (rule insert_row_Inr)
  from assms(2) have "distinct (map col_name td)" by (simp add: well_formed_def)
  from build_row_cell[OF r(2) this assms(3)] assms(4)
  have "coerce c (default_val c now) = Inr (cell r (col_name c))"
    by (simp add: supplied_def)
  with assms(5) have "coerce c (VTime now) = Inr (cell r (col_name c))"
    by (simp add: default_val_def)
  then have "cell r (col_name c) = VTime now"
    by (simp add: coerce_def split: col_type.splits)
  with r(1) show ?thesis by simp
qed

lemma insert_timestamps:
  assumes td: "td = links \<or> td = links_sql" and ins: "insert_row td now vals t = Inr t'"
  shows "\<exists>r. t' = t @ [r]
               \<and> (map_of vals ''created_at'' = None \<longrightarrow> createdAt r = VTime now)
               \<and> (map_of vals ''updated_at'' = None \<longrightarrow> updatedAt r = VTime now)"
proof -
  have wf: "well_formed td" using td well_formed_links by blast
  from td timestamp_columns(1,3) obtain cc where
    cc: "cc \<in> set td" "col_name cc = ''created_at''" "default_now cc" by blast
  from td timestamp_columns(2,4) obtain cu where
    cu: "cu \<in> set td" "col_name cu = ''updated_at''" "default_now cu" by blast
  from ins obtain r where r: "t' = t @ [r]" by (rule insert_row_Inr)
  then have l: "last t' = r" by simp
  have "createdAt r = VTime now" if "map_of vals ''created_at'' = None"
  proof -
    from that cc(2) have "map_of vals (col_name cc) = None" by simp
    from insert_default_cell[OF ins wf cc(1) this cc(3)] show ?thesis
      unfolding l cc(2) createdAt_def .
  qed
  moreover have "updatedAt r = VTime now" if "map_of vals ''updated_at'' = None"
  proof -
    from that cu(2) have "map_of vals (col_name cu) = None" by simp
    from insert_default_cell[OF ins wf cu(1) this cu(3)] show ?thesis
      unfolding l cu(2) updatedAt_def .
  qed
  ultimately show ?thesis using r by (intro exI[of _ r]) simp
qed

lemma update_all_keeps_cell:
  assumes "update_all td now sets n v t = Inr t'" "distinct (map col_name td)" "c \<in> set td"
    "map_of sets (col_name c) = None" "\<not> on_update_now c"
  shows "map (\<lambda>r. cell r (col_name c)) t' = map (\<lambda>r. cell r (col_name c)) t"
  using assms(1)
proof (induction t arbitrary: t')
  case Nil
  then show ?case by simp
next
  case (Cons r rs)
  show ?case
  proof (cases "matches n v r")
    case True
    with Cons.prems obtain r' rs' where
      r': "update_cells td now sets r = Inr r'" and rs': "update_all td now sets n v rs = Inr rs'"
      and t': "t' = r' # rs'"
      by (auto split: sum.splits option.splits)
    from update_cells_cell[OF r' assms(2,3)] assms(4,5)
    have "cell r' (col_name c) = cell r (col_name c)" by simp
    with Cons.IH[OF rs'] t' show ?thesis by simp
  next
    case False
    with Cons.prems obtain rs' where
      rs': "update_all td now sets n v rs = Inr rs'" and t': "t' = r # rs'"
      by (auto split: sum.splits)
    with Cons.IH[OF rs'] show ?thesis by simp
  qed
qed

lemma update_rows_keeps_cell:
  assumes "update_rows td now sets n v t = Inr t'" "well_formed td" "c \<in> set td"
    "map_of sets (col_name c) = None" "\<not> on_update_now c"
  shows "map (\<lambda>r. cell r (col_name c)) t' = map (\<lambda>r. cell r (col_name c)) t"
proof -
  from assms(1) have "update_all td now sets n v t = Inr t'"
    by (auto simp: update_rows_def split: option.splits sum.splits)
  moreover from assms(2) have "distinct (map col_name td)" by (simp add: well_formed_def)
  ultimately show ?thesis using assms(3,4,5) by (rule update_all_keeps_cell)
qed

lemma update_timestamps:
  assumes td: "td = links \<or> td = links_sql" and upd: "update_rows td now sets n v t = Inr t'"
  shows "(map_of sets ''created_at'' = None \<longrightarrow> map createdAt t' = map createdAt t)
          \<and> (map_of sets ''updated_at'' = None \<longrightarrow> map updatedAt t' = map updatedAt t)"
proof -
  have wf: "well_formed td" using td well_formed_links by blast
  from td timestamp_columns(1,3) obtain cc where
    cc: "cc \<in> set td" "col_name cc = ''created_at''" "\<not> on_update_now cc" by blast
  from td timestamp_columns(2,4) obtain cu where
    cu: "cu \<in> set td" "col_name cu = ''updated_at''" "\<not> on_update_now cu" by blast
  have "map createdAt t' = map createdAt t" if "map_of sets ''created_at'' = None"
  proof -
    from that cc(2) have "map_of sets (col_name cc) = None" by simp
    from update_rows_keeps_cell[OF upd wf cc(1) this cc(3)] show ?thesis
      unfolding cc(2) createdAt_def[abs_def] .
  qed
  moreover have "map updatedAt t' = map updatedAt t" if "map_of sets ''updated_at'' = None"
  proof -
    from that cu(2) have "map_of sets (col_name cu) = None" by simp
    from update_rows_keeps_cell[OF upd wf cu(1) this cu(3)] show ?thesis
      unfolding cu(2) updatedAt_def[abs_def] .
  qed
  ultimately show ?thesis by simp
qed

lemma insert_without_value_fails:
  assumes "well_formed td" "c \<in> set td" "must_be_present c" "\<not> default_now c"
    and "map_of vals (col_name c) = None \<or> map_of vals (col_name c) = Some VNull"
  shows "\<exists>err. insert_row td now vals t = Inl err"
proof (cases "insert_row td now vals t")
  case (Inl err)
  then show ?thesis by simp
next
  case (Inr t')
  then obtain r where r: "build_row td now vals = Inr r"
    and nn: "\<forall>c\<in>set td. check_not_null r c = None"
    by (rule insert_row_Inr)
  from assms(1) have "distinct (map col_name td)" by (simp add: well_formed_def)
  from build_row_cell[OF r this assms(2)]
  have "coerce c (supplied c now vals) = Inr (cell r (col_name c))" .
  moreover from assms(4,5) have "supplied c now vals = VNull"
    by (auto simp: supplied_def default_val_def)
  ultimately have "cell r (col_name c) = VNull"
    by (simp add: coerce_def)
  with assms(3) have "check_not_null r c \<noteq> None"
    by (simp add: check_not_null_def)
  with nn assms(2) have False by auto
  then show ?thesis ..
qed

section \<open>Properties of the seed script\<close>

lemma seed_values_cells:
  "cell (seed_values e k link) ''id'' = VText (nanoid e k)"
  "cell (seed_values e k link) ''user_id'' = VText seed_userId"
  "cell (seed_values e k link) ''short_code'' = VText (snd link)"
  by (simp_all add: seed_values_def cell_Cons)

lemma insert_seed_values:
  assumes "td = links \<or> td = links_sql" "length (snd link) \<le> 20"
  shows "insert_row td now (seed_values e k link) t
   = (if collides ''id'' (VText (nanoid e k)) t then Inl (UniqueViolation ''id'')
      else if collides ''short_code'' (VText (snd link)) t then Inl (UniqueViolation ''short_code'')
      else Inr (t @ [seed_values e k link]))"
  using assms insert_six_links insert_six_links_sql
  by (auto simp: insert_row_def seed_values_def)

lemma seed_loop_no_code_collision:
  assumes "td = links \<or> td = links_sql"
    and "\<forall>link\<in>set ls. length (snd link) \<le> 20"
    and "distinct (map snd ls)"
    and "\<forall>link\<in>set ls. \<not> collides ''short_code'' (VText (snd link)) t"
  shows "fst (seed_loop td e k ls t) \<noteq> Some (UniqueViolation ''short_code'')"
  using assms(2-)
proof (induction ls arbitrary: k t)
  case Nil
  then show ?case by simp
next
  case (Cons link rest)
  have len: "length (snd link) \<le> 20" and free: "\<not> collides ''short_code'' (VText (snd link)) t"
    using Cons.prems by simp_all
  show ?case
  proof (cases "collides ''id'' (VText (nanoid e k)) t")
    case True
    then show ?thesis
      by (simp add: insert_seed_values[OF assms(1) len])
  next
    case False
    let ?t' = "t @ [seed_values e k link]"
    have "\<forall>l\<in>set rest. \<not> collides ''short_code'' (VText (snd l)) ?t'"
      using Cons.prems(2,3) by (auto simp: collides_append seed_values_cells)
    with Cons.prems have "fst (seed_loop td e (Suc k) rest ?t') \<noteq> Some (UniqueViolation ''short_code'')"
      by (intro Cons.IH) simp_all
    with False free show ?thesis
      by (simp add: insert_seed_values[OF assms(1) len])
  qed
qed

lemma seed_loop_succeeds:
  assumes "td = links \<or> td = links_sql"
    and "\<forall>link\<in>set ls. length (snd link) \<le> 20"
    and "distinct (map snd ls)"
    and "\<forall>link\<in>set ls. \<not> collides ''short_code'' (VText (snd link)) t"
    and "distinct (map (nanoid e) [k..<k + length ls])"
    and "\<forall>j\<in>{k..<k + length ls}. \<not> collides ''id'' (VText (nanoid e j)) t"
  shows "seed_loop td e k ls t = (None, t @ map (\<lambda>(j, link). seed_values e j link) (zip [k..<k + length ls] ls))"
  using assms(2-)
proof (induction ls arbitrary: k t)
  case Nil
  then show ?case by simp
next
  case (Cons link rest)
  have len: "length (snd link) \<le> 20" and free: "\<not> collides ''short_code'' (VText (snd link)) t"
    using Cons.prems by simp_all
  have up: "[k..<k + length (link # rest)] = k # [Suc k..<Suc k + length rest]"
    by (simp add: upt_conv_Cons del: upt_Suc)
  from Cons.prems(5) have idfree: "\<not> collides ''id'' (VText (nanoid e k)) t"
    by simp
  let ?t' = "t @ [seed_values e k link]"
  have 1: "\<forall>l\<in>set rest. \<not> collides ''short_code'' (VText (snd l)) ?t'"
    using Cons.prems(2,3) by (auto simp: collides_append seed_values_cells)
  have 2: "distinct (map (nanoid e) [Suc k..<Suc k + length rest])"
    using Cons.prems(4) unfolding up by simp
  have 3: "\<forall>j\<in>{Suc k..<Suc k + length rest}. \<not> collides ''id'' (VText (nanoid e j)) ?t'"
  proof
    fix j assume j: "j \<in> {Suc k..<Suc k + length rest}"
    with Cons.prems(5) have "\<not> collides ''id'' (VText (nanoid e j)) t" by simp
    moreover from Cons.prems(4) j have "nanoid e k \<noteq> nanoid e j"
      unfolding up by auto
    ultimately show "\<not> collides ''id'' (VText (nanoid e j)) ?t'"
      by (simp add: collides_append seed_values_cells)
  qed
  have "seed_loop td e (Suc k) rest ?t'
      = (None, ?t' @ map (\<lambda>(j, link). seed_values e j link) (zip [Suc k..<Suc k + length rest] rest))"
    using Cons.prems(1,2) 1 2 3 by (intro Cons.IH) simp_all
  with idfree free show ?case
    unfolding up by (simp add: insert_seed_values[OF assms(1) len])
qed

lemma exampleLinks_facts:
  "length exampleLinks = 10"
  "distinct (map snd exampleLinks)"
  "\<forall>link\<in>set exampleLinks. snd link \<noteq> [] \<and> length (snd link) \<le> 10 \<and> list_all seed_code_char (snd link)"
  by (simp_all add: exampleLinks_def seed_code_char_def)

lemma seeded_short_codes:
  "length ns = length ls \<Longrightarrow>
   map shortCode (map (\<lambda>(k, link). seed_values e k link) (zip ns ls)) = map (\<lambda>link. VText (snd link)) ls"
  by (induction ns ls rule: list_induct2) (simp_all add: shortCode_def seed_values_cells)

section \<open>Properties of the allocator\<close>

subsection \<open>One attempt\<close>

lemma nul_free_url_safe: "list_all url_safe c \<Longrightarrow> nul_free c"
  by (auto simp: nul_free_def list_all_iff url_safe_def)

lemma valid_custom_code_nul_free: "valid_custom_code c \<Longrightarrow> nul_free c"
  by (simp add: valid_custom_code_def nul_free_url_safe)

lemma sendable_link_values:
  "sendable (link_values i uid u c) = (nul_free i \<and> nul_free uid \<and> nul_free u \<and> nul_free c)"
  by (simp add: sendable_def link_values_def)

lemma insert_link_values:
  assumes "length c \<le> 20"
  shows "insert_returning links now (link_values i uid u c) t
   = (if collides ''id'' (VText i) t then Inl (UniqueViolation ''id'')
      else if collides ''short_code'' (VText c) t then Inl (UniqueViolation ''short_code'')
      else Inr (link_row i uid u c now now, t @ [link_row i uid u c now now]))"
  using insert_four_links[OF assms] by (simp add: link_values_def link_row_def)

lemma attempt_links:
  assumes "length c \<le> 20" "store_fault e k = None"
    and "nul_free (fresh_id e k)" "nul_free uid" "nul_free u" "nul_free c"
  shows "attempt links e u uid c k t
   = (if collides ''id'' (VText (fresh_id e k)) t then Inl (Refused (UniqueViolation ''id''))
      else if collides ''short_code'' (VText c) t then Inl (Refused (UniqueViolation ''short_code''))
      else Inr (link_row (fresh_id e k) uid u c (store_now e k) (store_now e k),
                t @ [link_row (fresh_id e k) uid u c (store_now e k) (store_now e k)]))"
  using assms
  by (simp add: attempt_def store_insert_def sendable_link_values insert_link_values)

lemma link_row_fields:
  "link_id (link_row i uid u c a b) = VText i"
  "userId (link_row i uid u c a b) = VText uid"
  "url (link_row i uid u c a b) = VText u"
  "shortCode (link_row i uid u c a b) = VText c"
  "createdAt (link_row i uid u c a b) = VTime a"
  "updatedAt (link_row i uid u c a b) = VTime b"
  by (simp_all add: link_row_def link_id_def userId_def url_def shortCode_def createdAt_def
      updatedAt_def cell_Cons)

text \<open>
  Whatever the store accepts for an attempt is the whole Link: the row returned holds the
  generated identifier, the user, the URL, the code and the store's clock, and it is the
  one row added. (A code longer than 20 characters is accepted only when what follows
  the first 20 is spaces, and is then cut to them.)
\<close>

lemma insert_link_values_Inr:
  assumes "insert_returning links now (link_values i uid u c) t = Inr (r, t')"
  shows "r = link_row i uid u (take 20 c) now now \<and> t' = t @ [r]"
  using assms
  by (auto simp: insert_eval links_def link_values_def link_row_def
      split: if_splits option.splits sum.splits)

lemma attempt_Inr:
  assumes "attempt links e u uid c k t = Inr (r, t')"
  shows "r = link_row (fresh_id e k) uid u (take 20 c) (store_now e k) (store_now e k)
         \<and> t' = t @ [r] \<and> store_fault e k = None
         \<and> nul_free (fresh_id e k) \<and> nul_free uid \<and> nul_free u \<and> nul_free c"
proof -
  from assms have f: "store_fault e k = None" and s: "sendable (link_values (fresh_id e k) uid u c)"
    and i: "insert_returning links (store_now e k) (link_values (fresh_id e k) uid u c) t = Inr (r, t')"
    by (auto simp: attempt_def store_insert_def split: option.splits if_splits sum.splits)
  from insert_link_values_Inr[OF i] f s show ?thesis
    by (simp add: sendable_link_values)
qed

subsection \<open>The generation loop and the custom code\<close>

lemma generate_exhausted:
  assumes "nul_free u" "nul_free uid"
    and "\<forall>j. nul_free (fresh_id e j)" "\<forall>j. nul_free (candidate e j)"
    and "\<forall>j. length (candidate e j) \<le> 20"
    and "\<forall>j. k \<le> j \<and> j < k + n \<longrightarrow> store_fault e j = None"
    and "\<forall>j. k \<le> j \<and> j < k + n \<longrightarrow> \<not> collides ''id'' (VText (fresh_id e j)) t"
    and "\<forall>j. k \<le> j \<and> j < k + n \<longrightarrow> collides ''short_code'' (VText (candidate e j)) t"
  shows "generate links e u uid n k t = (Inl AllocationExhausted, t, k + n)"
  using assms(6-)
proof (induction n arbitrary: k)
  case 0
  then show ?case by simp
next
  case (Suc n)
  from Suc.prems have here: "store_fault e k = None"
    "\<not> collides ''id'' (VText (fresh_id e k)) t"
    "collides ''short_code'' (VText (candidate e k)) t"
    by simp_all
  have a: "attempt links e u uid (candidate e k) k t = Inl (Refused (UniqueViolation ''short_code''))"
    using assms(1-5) here by (simp add: attempt_links)
  have "generate links e u uid n (Suc k) t = (Inl AllocationExhausted, t, Suc k + n)"
    using Suc.prems by (intro Suc.IH) simp_all
  with a show ?case
    by (simp add: is_code_collision_def)
qed

lemma generate_succeeds:
  assumes "nul_free u" "nul_free uid"
    and "\<forall>j. nul_free (fresh_id e j)" "\<forall>j. nul_free (candidate e j)"
    and "\<forall>j. length (candidate e j) \<le> 20"
    and "\<forall>j. k \<le> j \<and> j \<le> k + m \<longrightarrow> store_fault e j = None"
    and "\<forall>j. k \<le> j \<and> j \<le> k + m \<longrightarrow> \<not> collides ''id'' (VText (fresh_id e j)) t"
    and "\<forall>j. k \<le> j \<and> j < k + m \<longrightarrow> collides ''short_code'' (VText (candidate e j)) t"
    and "\<not> collides ''short_code'' (VText (candidate e (k + m))) t"
    and "m < n"
  shows "generate links e u uid n k t
    = (Inr (link_row (fresh_id e (k + m)) uid u (candidate e (k + m)) (store_now e (k + m)) (store_now e (k + m))),
       t @ [link_row (fresh_id e (k + m)) uid u (candidate e (k + m)) (store_now e (k + m)) (store_now e (k + m))],
       Suc (k + m))"
  using assms(6-)
proof (induction m arbitrary: k n)
  case 0
  then obtain n' where n: "n = Suc n'" by (cases n) simp_all
  from 0 have here: "store_fault e k = None"
    "\<not> collides ''id'' (VText (fresh_id e k)) t"
    "\<not> collides ''short_code'' (VText (candidate e k)) t"
    by simp_all
  have "attempt links e u uid (candidate e k) k t
    = Inr (link_row (fresh_id e k) uid u (candidate e k) (store_now e k) (store_now e k),
           t @ [link_row (fresh_id e k) uid u (candidate e k) (store_now e k) (store_now e k)])"
    using assms(1-5) here by (simp add: attempt_links)
  then show ?case unfolding n by simp
next
  case (Suc m)
  then obtain n' where n: "n = Suc n'" and m: "m < n'" by (cases n) simp_all
  from Suc.prems have here: "store_fault e k = None"
    "\<not> collides ''id'' (VText (fresh_id e k)) t"
    "collides ''short_code'' (VText (candidate e k)) t"
    by simp_all
  have a: "attempt links e u uid (candidate e k) k t = Inl (Refused (UniqueViolation ''short_code''))"
    using assms(1-5) here by (simp add: attempt_links)
  have "generate links e u uid n' (Suc k) t
    = (Inr (link_row (fresh_id e (Suc k + m)) uid u (candidate e (Suc k + m)) (store_now e (Suc k + m)) (store_now e (Suc k + m))),
       t @ [link_row (fresh_id e (Suc k + m)) uid u (candidate e (Suc k + m)) (store_now e (Suc k + m)) (store_now e (Suc k + m))],
       Suc (Suc k + m))"
    using Suc.prems m by (intro Suc.IH) simp_all
  with a show ?case
    unfolding n by (simp add: is_code_collision_def)
qed

lemma custom_code_first:
  assumes "valid_url e u" and "valid_custom_code c"
    and "nul_free u" and "nul_free uid" and "nul_free (fresh_id e 0)"
    and "store_fault e 0 = None"
    and "\<not> collides ''id'' (VText (fresh_id e 0)) t"
    and "\<not> collides ''short_code'' (VText c) t"
  shows "allocate links e u uid (Some c) t
    = (Inr (link_row (fresh_id e 0) uid u c (store_now e 0) (store_now e 0)),
       t @ [link_row (fresh_id e 0) uid u c (store_now e 0) (store_now e 0)], 1)"
proof -
  from assms(2) have len: "length c \<le> 20" and nf: "nul_free c"
    by (simp_all add: valid_custom_code_def valid_custom_code_nul_free)
  from assms len nf show ?thesis
    by (simp add: allocate_def attempt_links)
qed

lemma custom_code_taken:
  assumes "valid_url e u" and "valid_custom_code c"
    and "nul_free u" and "nul_free uid" and "nul_free (fresh_id e 0)"
    and "store_fault e 0 = None"
    and "\<not> collides ''id'' (VText (fresh_id e 0)) t"
    and "collides ''short_code'' (VText c) t"
  shows "allocate links e u uid (Some c) t = (Inl CodeAlreadyExists, t, 1)"
proof -
  from assms(2) have len: "length c \<le> 20" and nf: "nul_free c"
    by (simp_all add: valid_custom_code_def valid_custom_code_nul_free)
  from assms len nf show ?thesis
    by (simp add: allocate_def attempt_links is_code_collision_def)
qed

lemma generate_result:
  "\<exists>res t' a. generate td e u uid n k t = (res, t', a) \<and> k \<le> a \<and> a \<le> k + n
     \<and> (\<forall>j. k \<le> j \<and> Suc j < a \<longrightarrow>
           attempt td e u uid (candidate e j) j t = Inl (Refused (UniqueViolation ''short_code'')))
     \<and> (case res of
          Inr r \<Rightarrow> k < a \<and> attempt td e u uid (candidate e (a - 1)) (a - 1) t = Inr (r, t')
        | Inl err \<Rightarrow>
            t' = t
            \<and> (err = AllocationExhausted \<and> a = k + n
                 \<and> (\<forall>j. k \<le> j \<and> j < a \<longrightarrow>
                      attempt td e u uid (candidate e j) j t = Inl (Refused (UniqueViolation ''short_code'')))
               \<or> err = StoreUnavailable \<and> k < a
                 \<and> (\<exists>f. attempt td e u uid (candidate e (a - 1)) (a - 1) t = Inl f \<and> \<not> is_code_collision f)))"
proof (induction n arbitrary: k)
  case 0
  show ?case by auto
next
  case (Suc n)
  show ?case
  proof (cases "attempt td e u uid (candidate e k) k t")
    case (Inr p)
    then show ?thesis by (cases p) auto
  next
    case (Inl f)
    show ?thesis
    proof (cases "is_code_collision f")
      case False
      with Inl show ?thesis by auto
    next
      case True
      with Inl have here: "attempt td e u uid (candidate e k) k t = Inl (Refused (UniqueViolation ''short_code''))"
        by (simp add: is_code_collision_def)
      from Suc.IH[of "Suc k"] obtain res t' a where
        g: "generate td e u uid n (Suc k) t = (res, t', a)" and b: "Suc k \<le> a" "a \<le> Suc k + n"
        and h: "\<forall>j. Suc k \<le> j \<and> Suc j < a \<longrightarrow>
           attempt td e u uid (candidate e j) j t = Inl (Refused (UniqueViolation ''short_code''))"
        and c: "case res of
          Inr r \<Rightarrow> Suc k < a \<and> attempt td e u uid (candidate e (a - 1)) (a - 1) t = Inr (r, t')
        | Inl err \<Rightarrow>
            t' = t
            \<and> (err = AllocationExhausted \<and> a = Suc k + n
                 \<and> (\<forall>j. Suc k \<le> j \<and> j < a \<longrightarrow>
                      attempt td e u uid (candidate e j) j t = Inl (Refused (UniqueViolation ''short_code'')))
               \<or> err = StoreUnavailable \<and> Suc k < a
                 \<and> (\<exists>f. attempt td e u uid (candidate e (a - 1)) (a - 1) t = Inl f \<and> \<not> is_code_collision f))"
        by blast
      have step: "generate td e u uid (Suc n) k t = (res, t', a)"
        using Inl True g by simp
      have h': "\<forall>j. k \<le> j \<and> Suc j < a \<longrightarrow>
           attempt td e u uid (candidate e j) j t = Inl (Refused (UniqueViolation ''short_code''))"
      proof (intro allI impI)
        fix j assume "k \<le> j \<and> Suc j < a"
        then show "attempt td e u uid (candidate e j) j t = Inl (Refused (UniqueViolation ''short_code''))"
          using h here by (cases "j = k") auto
      qed
      have all: "\<forall>j. k \<le> j \<and> j < a \<longrightarrow>
                      attempt td e u uid (candidate e j) j t = Inl (Refused (UniqueViolation ''short_code''))"
        if "\<forall>j. Suc k \<le> j \<and> j < a \<longrightarrow>
                      attempt td e u uid (candidate e j) j t = Inl (Refused (UniqueViolation ''short_code''))"
      proof (intro allI impI)
        fix j assume "k \<le> j \<and> j < a"
        then show "attempt td e u uid (candidate e j) j t = Inl (Refused (UniqueViolation ''short_code''))"
          using that here by (cases "j = k") auto
      qed
      show ?thesis
      proof (cases res)
        case (Inr r)
        with c b step h' show ?thesis by auto
      next
        case (Inl err)
        with c b step h' all show ?thesis by auto
      qed
    qed
  qed
qed

subsection \<open>Every result is accounted for\<close>

lemma classified_generated:
  assumes "valid_url e u"
  shows "\<exists>res t' a. allocate links e u uid None t = (res, t', a) \<and> classified e u uid None t res t' a"
proof -
  from generate_result[of links e u uid retry_bound 0 t] obtain res t' a where
    g: "generate links e u uid retry_bound 0 t = (res, t', a)" and b: "a \<le> 0 + retry_bound"
    and h: "\<forall>j. 0 \<le> j \<and> Suc j < a \<longrightarrow>
           attempt links e u uid (candidate e j) j t = Inl (Refused (UniqueViolation ''short_code''))"
    and c: "case res of
          Inr r \<Rightarrow> 0 < a \<and> attempt links e u uid (candidate e (a - 1)) (a - 1) t = Inr (r, t')
        | Inl err \<Rightarrow>
            t' = t
            \<and> (err = AllocationExhausted \<and> a = 0 + retry_bound
                 \<and> (\<forall>j. 0 \<le> j \<and> j < a \<longrightarrow>
                      attempt links e u uid (candidate e j) j t = Inl (Refused (UniqueViolation ''short_code'')))
               \<or> err = StoreUnavailable \<and> 0 < a
                 \<and> (\<exists>f. attempt links e u uid (candidate e (a - 1)) (a - 1) t = Inl f \<and> \<not> is_code_collision f))"
    by blast
  have al: "allocate links e u uid None t = (res, t', a)"
    using assms g by (simp add: allocate_def)
  have "classified e u uid None t res t' a"
  proof (cases res)
    case (Inr r)
    with c have a: "0 < a" "attempt links e u uid (candidate e (a - 1)) (a - 1) t = Inr (r, t')"
      by simp_all
    from attempt_Inr[OF a(2)] a b h assms Inr show ?thesis
      by (simp add: classified_def code_at_def)
  next
    case (Inl err)
    with c have t: "t' = t" and d: "err = AllocationExhausted \<and> a = retry_bound
                 \<and> (\<forall>j. j < a \<longrightarrow>
                      attempt links e u uid (candidate e j) j t = Inl (Refused (UniqueViolation ''short_code'')))
               \<or> err = StoreUnavailable \<and> 0 < a
                 \<and> (\<exists>f. attempt links e u uid (candidate e (a - 1)) (a - 1) t = Inl f \<and> \<not> is_code_collision f)"
      by simp_all
    from d show ?thesis
    proof
      assume x: "err = AllocationExhausted \<and> a = retry_bound
                 \<and> (\<forall>j. j < a \<longrightarrow>
                      attempt links e u uid (candidate e j) j t = Inl (Refused (UniqueViolation ''short_code'')))"
      then have "attempt links e u uid (candidate e (a - 1)) (a - 1) t = Inl (Refused (UniqueViolation ''short_code''))"
        by (simp add: retry_bound_def)
      with x t b h assms Inl show ?thesis
        by (simp add: classified_def code_at_def)
    next
      assume x: "err = StoreUnavailable \<and> 0 < a
                 \<and> (\<exists>f. attempt links e u uid (candidate e (a - 1)) (a - 1) t = Inl f \<and> \<not> is_code_collision f)"
      with t b h assms Inl show ?thesis
        by (simp add: classified_def code_at_def)
    qed
  qed
  with al show ?thesis by blast
qed

lemma classified_custom:
  assumes "valid_url e u"
  shows "\<exists>res t' a. allocate links e u uid (Some c) t = (res, t', a)
           \<and> classified e u uid (Some c) t res t' a"
proof (cases "valid_custom_code c")
  case False
  with assms show ?thesis
    by (simp add: allocate_def classified_def)
next
  case True
  show ?thesis
  proof (cases "attempt links e u uid c 0 t")
    case (Inl f)
    with assms True show ?thesis
      by (simp add: allocate_def classified_def code_at_def retry_bound_def is_code_collision_def)
  next
    case (Inr p)
    obtain r t' where p: "p = (r, t')" by (cases p)
    from attempt_Inr[OF Inr[unfolded p]] Inr p assms True show ?thesis
      by (simp add: allocate_def classified_def code_at_def retry_bound_def)
  qed
qed

lemma first_attempt_succeeds:
  assumes "valid_url e u" "\<forall>c. customCode = Some c \<longrightarrow> valid_custom_code c"
    and "nul_free u" "nul_free uid" "nul_free (fresh_id e 0)" "nul_free (code_at e customCode 0)"
    and "length (code_at e customCode 0) \<le> 20" "store_fault e 0 = None"
    and "\<not> collides ''id'' (VText (fresh_id e 0)) t"
    and "\<not> collides ''short_code'' (VText (code_at e customCode 0)) t"
  shows "\<exists>r t'. allocate links e u uid customCode t = (Inr r, t', 1)"
proof -
  have a: "attempt links e u uid (code_at e customCode 0) 0 t
    = Inr (link_row (fresh_id e 0) uid u (code_at e customCode 0) (store_now e 0) (store_now e 0),
           t @ [link_row (fresh_id e 0) uid u (code_at e customCode 0) (store_now e 0) (store_now e 0)])"
    using assms(3-) by (simp add: attempt_links)
  show ?thesis
  proof (cases customCode)
    case None
    with a assms(1) show ?thesis
      by (simp add: allocate_def code_at_def retry_bound_def eval_nat_numeral)
  next
    case (Some c)
    with a assms(1,2) show ?thesis
      by (simp add: allocate_def code_at_def)
  qed
qed

subsection \<open>Examples\<close>

lemma valid_custom_code_my_link: "valid_custom_code ''my-link''"
  by (simp add: valid_custom_code_def url_safe_def)

lemma nul_free_literals:
  "nul_free ''https://example.com''" "nul_free ''https://other.com''"
  "nul_free ''uid''" "nul_free ''uid2''" "nul_free ''u1''"
  "nul_free ''id-1''" "nul_free ''id-2''" "nul_free ''new''"
  "nul_free ''aaaaaaaa''" "nul_free ''bbbbbbbb''" "nul_free ''cccccccc''"
  by (simp_all add: nul_free_def)

text \<open>
  A URL with a NUL in it passes the validation used here and is refused by the store.
\<close>

lemma allocate_nul_url:
  "allocate links
      \<lparr>valid_url = (\<lambda>s. take 8 s = ''https://''), candidate = (\<lambda>k. ''aaaaaaaa''),
       fresh_id = (\<lambda>k. ''id-1''), store_now = (\<lambda>k. 10), store_fault = (\<lambda>k. None)\<rparr>
      (''https://example.com/a'' @ [CHR 0x00] @ ''b'') ''uid'' (Some ''my-link'') []
   = (Inl StoreUnavailable, [], 1)"
  by (simp add: allocate_def valid_custom_code_my_link attempt_def store_insert_def
      sendable_def link_values_def nul_free_def is_code_collision_def)

text \<open>
  So is every insert while the store cannot be reached.
\<close>

lemma allocate_unreachable:
  "allocate links
      \<lparr>valid_url = (\<lambda>s. take 8 s = ''https://''), candidate = (\<lambda>k. ''aaaaaaaa''),
       fresh_id = (\<lambda>k. ''id-1''), store_now = (\<lambda>k. 10), store_fault = (\<lambda>k. Some ''08006'')\<rparr>
      ''https://example.com'' ''uid'' None []
   = (Inl StoreUnavailable, [], 1)"
  by (simp add: allocate_def attempt_def store_insert_def is_code_collision_def
      retry_bound_def eval_nat_numeral)

section \<open>The claims\<close>

subsection \<open>C1: short codes are unique\<close>

text \<open>
  Claim C1. Two distinct persisted Links never share a short code, and it is the table
  declaration that enforces this: the \<open>short_code\<close> column is declared unique, in
  \<open>db/schema.ts\<close> and in the migration alike. Whatever sequence of inserts, deletes and
  updates a client issues against an empty table, with failing statements leaving the
  table unchanged, any two rows at different positions of the resulting table differ in
  their short code.
\<close>

theorem short_code_unique:
  "(\<exists>c. column_named links ''short_code'' = Some c \<and> is_unique c)
   \<and> (\<exists>c. column_named links_sql ''short_code'' = Some c \<and> is_unique c)
   \<and> (\<forall>td ops i j. td = links \<or> td = links_sql \<longrightarrow>
          i < length (run td ops []) \<longrightarrow> j < length (run td ops []) \<longrightarrow> i \<noteq> j \<longrightarrow>
          shortCode (run td ops [] ! i) \<noteq> shortCode (run td ops [] ! j))"
proof (intro conjI allI impI)
  show "\<exists>c. column_named links ''short_code'' = Some c \<and> is_unique c"
    by (simp add: column_named_def links_def)
  show "\<exists>c. column_named links_sql ''short_code'' = Some c \<and> is_unique c"
    by (simp add: column_named_def links_sql_def)
next
  fix td ops i j
  assume td: "td = links \<or> td = links_sql"
    and ij: "i < length (run td ops [])" "j < length (run td ops [])" "i \<noteq> j"
  from distinct_short_codes[OF td, of ops] ij
  show "shortCode (run td ops [] ! i) \<noteq> shortCode (run td ops [] ! j)"
    by (simp add: distinct_conv_nth)
qed

theorem short_code_unique_witness:
  "length (run links
      [Insert 1 [(''id'', VText ''a''), (''user_id'', VText ''u1''), (''url'', VText ''https://example.com''), (''short_code'', VText ''my-link'')],
       Insert 2 [(''id'', VText ''b''), (''user_id'', VText ''u2''), (''url'', VText ''https://other.com''), (''short_code'', VText ''my-link'')],
       Insert 3 [(''id'', VText ''c''), (''user_id'', VText ''u2''), (''url'', VText ''https://other.com''), (''short_code'', VText ''other'')]] []) = 2
   \<and> shortCode (run links
      [Insert 1 [(''id'', VText ''a''), (''user_id'', VText ''u1''), (''url'', VText ''https://example.com''), (''short_code'', VText ''my-link'')],
       Insert 2 [(''id'', VText ''b''), (''user_id'', VText ''u2''), (''url'', VText ''https://other.com''), (''short_code'', VText ''my-link'')],
       Insert 3 [(''id'', VText ''c''), (''user_id'', VText ''u2''), (''url'', VText ''https://other.com''), (''short_code'', VText ''other'')]] [] ! 0)
     \<noteq> shortCode (run links
      [Insert 1 [(''id'', VText ''a''), (''user_id'', VText ''u1''), (''url'', VText ''https://example.com''), (''short_code'', VText ''my-link'')],
       Insert 2 [(''id'', VText ''b''), (''user_id'', VText ''u2''), (''url'', VText ''https://other.com''), (''short_code'', VText ''my-link'')],
       Insert 3 [(''id'', VText ''c''), (''user_id'', VText ''u2''), (''url'', VText ''https://other.com''), (''short_code'', VText ''other'')]] [] ! 1)"
  (is "length ?t = 2 \<and> _")
proof -
  have len: "length ?t = 2"
    by (simp add: store_eval)
  have "(links = links \<or> links = links_sql) \<and> 0 < length ?t \<and> 1 < length ?t \<and> (0::nat) \<noteq> 1"
    using len by simp
  with short_code_unique len show ?thesis
    by blast
qed

subsection \<open>C2: generated codes and the retry bound\<close>

text \<open>
  Claim C2. Without a custom code, the \<open>k\<close>-th attempt inserts the \<open>k\<close>-th candidate drawn.
  If the first \<open>N\<close> candidates collide with short codes in the table and \<open>N\<close> is below
  the bound of 5, and the next candidate is free, allocation succeeds with that candidate
  after \<open>N + 1\<close> inserts, and the Link returned is the row added, with the URL, the user
  and that candidate in it; if \<open>N\<close> is at or above the bound, the result is
  \<open>AllocationExhausted\<close> after 5 inserts and the table is unchanged.
  This is stated for the inputs on which the collision of the short code is the only
  answer the store can give besides a row: the texts sent hold no NUL, the candidates
  fit the column, the generated identifiers are not in the table, and the store fails
  for no other reason during these attempts.
\<close>

theorem generated_code_retry:
  assumes "valid_url e u"
    and "nul_free u" and "nul_free uid"
    and "\<forall>k. nul_free (fresh_id e k)" and "\<forall>k. nul_free (candidate e k)"
    and "\<forall>k. length (candidate e k) \<le> 20"
    and "\<forall>k. k \<le> N \<longrightarrow> store_fault e k = None"
    and "\<forall>k. k \<le> N \<longrightarrow> \<not> collides ''id'' (VText (fresh_id e k)) t"
    and "\<forall>k. k < N \<longrightarrow> collides ''short_code'' (VText (candidate e k)) t"
  shows "(N < retry_bound \<and> \<not> collides ''short_code'' (VText (candidate e N)) t \<longrightarrow>
            (\<exists>r. allocate links e u uid None t = (Inr r, t @ [r], Suc N)
                  \<and> r = link_row (fresh_id e N) uid u (candidate e N) (store_now e N) (store_now e N)
                  \<and> shortCode r = VText (candidate e N)))
       \<and> (retry_bound \<le> N \<longrightarrow>
            allocate links e u uid None t = (Inl AllocationExhausted, t, retry_bound))"
proof (intro conjI impI)
  assume a: "N < retry_bound \<and> \<not> collides ''short_code'' (VText (candidate e N)) t"
  have "generate links e u uid retry_bound 0 t
    = (Inr (link_row (fresh_id e (0 + N)) uid u (candidate e (0 + N)) (store_now e (0 + N)) (store_now e (0 + N))),
       t @ [link_row (fresh_id e (0 + N)) uid u (candidate e (0 + N)) (store_now e (0 + N)) (store_now e (0 + N))],
       Suc (0 + N))"
    using assms(2-) a by (intro generate_succeeds) simp_all
  with assms(1) show "\<exists>r. allocate links e u uid None t = (Inr r, t @ [r], Suc N)
                  \<and> r = link_row (fresh_id e N) uid u (candidate e N) (store_now e N) (store_now e N)
                  \<and> shortCode r = VText (candidate e N)"
    by (simp add: allocate_def link_row_fields)
next
  assume a: "retry_bound \<le> N"
  have "generate links e u uid retry_bound 0 t = (Inl AllocationExhausted, t, 0 + retry_bound)"
    using assms(2-) a by (intro generate_exhausted) simp_all
  with assms(1) show "allocate links e u uid None t = (Inl AllocationExhausted, t, retry_bound)"
    by (simp add: allocate_def)
qed

theorem generated_code_retry_witness:
  "(\<exists>r. allocate links
          \<lparr>valid_url = (\<lambda>s. take 8 s = ''https://''),
           candidate = (\<lambda>k. if k = 0 then ''aaaaaaaa'' else if k = 1 then ''bbbbbbbb'' else ''cccccccc''),
           fresh_id = (\<lambda>k. ''new''), store_now = int, store_fault = (\<lambda>k. None)\<rparr>
          ''https://example.com'' ''u1'' None
          [link_row ''k1'' ''u0'' ''https://a.example'' ''aaaaaaaa'' 1 1,
           link_row ''k2'' ''u0'' ''https://b.example'' ''bbbbbbbb'' 2 2]
        = (Inr r,
           [link_row ''k1'' ''u0'' ''https://a.example'' ''aaaaaaaa'' 1 1,
            link_row ''k2'' ''u0'' ''https://b.example'' ''bbbbbbbb'' 2 2] @ [r], 3)
        \<and> r = link_row ''new'' ''u1'' ''https://example.com'' ''cccccccc'' 2 2
        \<and> shortCode r = VText ''cccccccc'')
   \<and> allocate links
          \<lparr>valid_url = (\<lambda>s. take 8 s = ''https://''),
           candidate = (\<lambda>k. ''aaaaaaaa''),
           fresh_id = (\<lambda>k. ''new''), store_now = int, store_fault = (\<lambda>k. None)\<rparr>
          ''https://example.com'' ''u1'' None
          [link_row ''k1'' ''u0'' ''https://a.example'' ''aaaaaaaa'' 1 1]
        = (Inl AllocationExhausted, [link_row ''k1'' ''u0'' ''https://a.example'' ''aaaaaaaa'' 1 1], 5)"
proof -
  let ?e1 = "\<lparr>valid_url = (\<lambda>s. take 8 s = ''https://''),
           candidate = (\<lambda>k. if k = 0 then ''aaaaaaaa'' else if k = 1 then ''bbbbbbbb'' else ''cccccccc''),
           fresh_id = (\<lambda>k. ''new''), store_now = int, store_fault = (\<lambda>k. None)\<rparr>"
  let ?t1 = "[link_row ''k1'' ''u0'' ''https://a.example'' ''aaaaaaaa'' 1 1,
           link_row ''k2'' ''u0'' ''https://b.example'' ''bbbbbbbb'' 2 2]"
  let ?e2 = "\<lparr>valid_url = (\<lambda>s. take 8 s = ''https://''),
           candidate = (\<lambda>k. ''aaaaaaaa''),
           fresh_id = (\<lambda>k. ''new''), store_now = int, store_fault = (\<lambda>k. None)\<rparr>"
  let ?t2 = "[link_row ''k1'' ''u0'' ''https://a.example'' ''aaaaaaaa'' 1 1]"
  have u: "valid_url ?e1 ''https://example.com''" "valid_url ?e2 ''https://example.com''"
    by simp_all
  have n: "\<forall>k. nul_free (fresh_id ?e1 k)" "\<forall>k. nul_free (candidate ?e1 k)"
    "\<forall>k. nul_free (fresh_id ?e2 k)" "\<forall>k. nul_free (candidate ?e2 k)"
    by (simp_all add: nul_free_literals)
  have l: "\<forall>k. length (candidate ?e1 k) \<le> 20" "\<forall>k. length (candidate ?e2 k) \<le> 20"
    by simp_all
  have s: "\<forall>k. k \<le> 2 \<longrightarrow> store_fault ?e1 k = None" "\<forall>k. k \<le> 5 \<longrightarrow> store_fault ?e2 k = None"
    by simp_all
  have i: "\<forall>k. k \<le> 2 \<longrightarrow> \<not> collides ''id'' (VText (fresh_id ?e1 k)) ?t1"
    "\<forall>k. k \<le> 5 \<longrightarrow> \<not> collides ''id'' (VText (fresh_id ?e2 k)) ?t2"
    by (simp_all add: collides_Cons collides_Nil link_row_cells)
  have c: "\<forall>k. k < 2 \<longrightarrow> collides ''short_code'' (VText (candidate ?e1 k)) ?t1"
    "\<forall>k. k < 5 \<longrightarrow> collides ''short_code'' (VText (candidate ?e2 k)) ?t2"
    by (simp_all add: collides_Cons collides_Nil link_row_cells)
  have f: "2 < retry_bound \<and> \<not> collides ''short_code'' (VText (candidate ?e1 2)) ?t1"
    and g: "retry_bound \<le> 5"
    by (simp_all add: collides_Cons collides_Nil link_row_cells retry_bound_def)
  from generated_code_retry[OF u(1) nul_free_literals(1,5) n(1,2) l(1) s(1) i(1) c(1),
      THEN conjunct1, THEN mp, OF f]
  have 1: "\<exists>r. allocate links ?e1 ''https://example.com'' ''u1'' None ?t1 = (Inr r, ?t1 @ [r], 3)
        \<and> r = link_row ''new'' ''u1'' ''https://example.com'' ''cccccccc'' 2 2
        \<and> shortCode r = VText ''cccccccc''"
    by simp
  from generated_code_retry[OF u(2) nul_free_literals(1,5) n(3,4) l(2) s(2) i(2) c(2),
      THEN conjunct2, THEN mp, OF g]
  have 2: "allocate links ?e2 ''https://example.com'' ''u1'' None ?t2 = (Inl AllocationExhausted, ?t2, 5)"
    by (simp add: retry_bound_def)
  from 1 2 show ?thesis by (rule conjI)
qed

subsection \<open>C3: custom codes\<close>

text \<open>
  Claim C3. With a valid custom code, \<open>allocate\<close> inserts exactly that code, once: if the
  code is free, the Link returned is the row added and carries the URL, the user and that
  code; if the code is taken, so that the store reports a collision on the short code,
  the result is \<open>CodeAlreadyExists\<close> after that single insert and the table is unchanged,
  so no other code was tried and no row was created.
  This is stated for the inputs on which the store can answer nothing else: the URL, the
  user and the generated identifier hold no NUL, the identifier is not in the table, and
  the store does not fail for another reason.
\<close>

theorem custom_code_exact:
  assumes "valid_url e u" and "valid_custom_code c"
    and "nul_free u" and "nul_free uid" and "nul_free (fresh_id e 0)"
    and "store_fault e 0 = None"
    and "\<not> collides ''id'' (VText (fresh_id e 0)) t"
  shows "(\<not> collides ''short_code'' (VText c) t \<longrightarrow>
            (\<exists>r. allocate links e u uid (Some c) t = (Inr r, t @ [r], 1)
                  \<and> r = link_row (fresh_id e 0) uid u c (store_now e 0) (store_now e 0)
                  \<and> shortCode r = VText c))
       \<and> (collides ''short_code'' (VText c) t \<longrightarrow>
            allocate links e u uid (Some c) t = (Inl CodeAlreadyExists, t, 1))"
  using custom_code_first[OF assms] custom_code_taken[OF assms]
  by (simp add: link_row_fields)

theorem custom_code_exact_witness:
  "(\<exists>r. allocate links
          \<lparr>valid_url = (\<lambda>s. take 8 s = ''https://''), candidate = (\<lambda>k. ''aaaaaaaa''),
           fresh_id = (\<lambda>k. ''id-1''), store_now = (\<lambda>k. 10), store_fault = (\<lambda>k. None)\<rparr>
          ''https://example.com'' ''uid'' (Some ''my-link'') []
        = (Inr r, [] @ [r], 1)
        \<and> r = link_row ''id-1'' ''uid'' ''https://example.com'' ''my-link'' 10 10
        \<and> shortCode r = VText ''my-link'')
   \<and> allocate links
          \<lparr>valid_url = (\<lambda>s. take 8 s = ''https://''), candidate = (\<lambda>k. ''aaaaaaaa''),
           fresh_id = (\<lambda>k. ''id-2''), store_now = (\<lambda>k. 11), store_fault = (\<lambda>k. None)\<rparr>
          ''https://other.com'' ''uid2'' (Some ''my-link'')
          [link_row ''id-1'' ''uid'' ''https://example.com'' ''my-link'' 10 10]
        = (Inl CodeAlreadyExists, [link_row ''id-1'' ''uid'' ''https://example.com'' ''my-link'' 10 10], 1)"
proof -
  let ?e1 = "\<lparr>valid_url = (\<lambda>s. take 8 s = ''https://''), candidate = (\<lambda>k. ''aaaaaaaa''),
           fresh_id = (\<lambda>k. ''id-1''), store_now = (\<lambda>k. 10), store_fault = (\<lambda>k. None)\<rparr>"
  let ?e2 = "\<lparr>valid_url = (\<lambda>s. take 8 s = ''https://''), candidate = (\<lambda>k. ''aaaaaaaa''),
           fresh_id = (\<lambda>k. ''id-2''), store_now = (\<lambda>k. 11), store_fault = (\<lambda>k. None)\<rparr>"
  let ?t = "[link_row ''id-1'' ''uid'' ''https://example.com'' ''my-link'' 10 10]"
  have u: "valid_url ?e1 ''https://example.com''" "valid_url ?e2 ''https://other.com''"
    by simp_all
  have n: "nul_free (fresh_id ?e1 0)" "nul_free (fresh_id ?e2 0)"
    by (simp_all add: nul_free_literals)
  have s: "store_fault ?e1 0 = None" "store_fault ?e2 0 = None"
    by simp_all
  have i: "\<not> collides ''id'' (VText (fresh_id ?e1 0)) []"
    "\<not> collides ''id'' (VText (fresh_id ?e2 0)) ?t"
    by (simp_all add: collides_Cons collides_Nil link_row_cells)
  have f: "\<not> collides ''short_code'' (VText ''my-link'') []"
    and c: "collides ''short_code'' (VText ''my-link'') ?t"
    by (simp_all add: collides_Cons collides_Nil link_row_cells)
  from custom_code_exact[OF u(1) valid_custom_code_my_link nul_free_literals(1,3) n(1) s(1) i(1),
      THEN conjunct1, THEN mp, OF f]
  have 1: "\<exists>r. allocate links ?e1 ''https://example.com'' ''uid'' (Some ''my-link'') []
        = (Inr r, [] @ [r], 1)
        \<and> r = link_row ''id-1'' ''uid'' ''https://example.com'' ''my-link'' 10 10
        \<and> shortCode r = VText ''my-link''"
    by simp
  from custom_code_exact[OF u(2) valid_custom_code_my_link nul_free_literals(2,4) n(2) s(2) i(2),
      THEN conjunct2, THEN mp, OF c]
  have 2: "allocate links ?e2 ''https://other.com'' ''uid2'' (Some ''my-link'') ?t
        = (Inl CodeAlreadyExists, ?t, 1)" .
  from 1 2 show ?thesis by (rule conjI)
qed

subsection \<open>C4: invalid URLs\<close>

text \<open>
  Claim C4. A URL that fails the validity predicate is rejected with \<open>InvalidURL\<close>, for
  every user identifier and every custom code or none: no insert is attempted (the count
  of attempts is 0) and the table is unchanged.
\<close>

theorem invalid_url_rejected:
  assumes "\<not> valid_url e u"
  shows "allocate td e u uid customCode t = (Inl InvalidURL, t, 0)"
  using assms by (simp add: allocate_def)

theorem invalid_url_rejected_witness:
  "\<not> valid_url \<lparr>valid_url = (\<lambda>s. take 7 s = ''http://'' \<or> take 8 s = ''https://''),
                 candidate = (\<lambda>k. ''aaaaaaaa''), fresh_id = (\<lambda>k. ''id-1''), store_now = (\<lambda>k. 10),
                 store_fault = (\<lambda>k. None)\<rparr>
        ''not-a-url''
   \<and> allocate links
        \<lparr>valid_url = (\<lambda>s. take 7 s = ''http://'' \<or> take 8 s = ''https://''),
         candidate = (\<lambda>k. ''aaaaaaaa''), fresh_id = (\<lambda>k. ''id-1''), store_now = (\<lambda>k. 10),
         store_fault = (\<lambda>k. None)\<rparr>
        ''not-a-url'' ''uid'' None [link_row ''k1'' ''u0'' ''https://a.example'' ''aaaaaaaa'' 1 1]
     = (Inl InvalidURL, [link_row ''k1'' ''u0'' ''https://a.example'' ''aaaaaaaa'' 1 1], 0)"
proof -
  let ?e = "\<lparr>valid_url = (\<lambda>s. take 7 s = ''http://'' \<or> take 8 s = ''https://''),
         candidate = (\<lambda>k. ''aaaaaaaa''), fresh_id = (\<lambda>k. ''id-1''), store_now = (\<lambda>k. 10),
         store_fault = (\<lambda>k. None)\<rparr>"
  have n: "\<not> valid_url ?e ''not-a-url''" by simp
  from n invalid_url_rejected[OF n] show ?thesis by (rule conjI)
qed

subsection \<open>C5: allocate is total\<close>

text \<open>
  Claim C5. \<open>allocate\<close> is total and every result is accounted for. For every input,
  environment and table it returns after at most 5 inserts, each attempt before the last
  having met a collision of the short code, and the result is one of six:
  a Link, which is the row the store accepted at the last attempt, holding the generated
  identifier, the user, the URL, the code and the store's clock, and the one row added
  to the table; or one of the five error kinds, each with the table unchanged and with
  its reason: \<open>InvalidURL\<close> for a URL that fails the predicate, before any insert;
  \<open>InvalidCustomCode\<close> for a custom code that fails its check, before any insert;
  \<open>CodeAlreadyExists\<close> when the one insert of a custom code met a collision of the short
  code; \<open>AllocationExhausted\<close> when 5 generated candidates did; \<open>StoreUnavailable\<close>
  when the last attempt failed in any other way, be it a constraint, a refused text or
  a store that cannot be reached. And an allocation does succeed, at the first attempt,
  when its input is valid, its texts hold no NUL, the code fits the column, the store
  does not fail, and neither the generated identifier nor the code is in the table.
\<close>

theorem allocate_total:
  "\<exists>res t' a. allocate links e u uid customCode t = (res, t', a)
     \<and> a \<le> retry_bound
     \<and> (\<forall>k. Suc k < a \<longrightarrow>
           attempt links e u uid (code_at e customCode k) k t
             = Inl (Refused (UniqueViolation ''short_code'')))
     \<and> (case res of
          Inr r \<Rightarrow>
            0 < a \<and> valid_url e u \<and> (\<forall>c. customCode = Some c \<longrightarrow> valid_custom_code c)
            \<and> attempt links e u uid (code_at e customCode (a - 1)) (a - 1) t = Inr (r, t')
            \<and> r = link_row (fresh_id e (a - 1)) uid u (take 20 (code_at e customCode (a - 1)))
                    (store_now e (a - 1)) (store_now e (a - 1))
            \<and> t' = t @ [r]
        | Inl InvalidURL \<Rightarrow> t' = t \<and> a = 0 \<and> \<not> valid_url e u
        | Inl InvalidCustomCode \<Rightarrow>
            t' = t \<and> a = 0 \<and> valid_url e u
            \<and> (\<exists>c. customCode = Some c \<and> \<not> valid_custom_code c)
        | Inl CodeAlreadyExists \<Rightarrow>
            t' = t \<and> a = 1 \<and> valid_url e u
            \<and> (\<exists>c. customCode = Some c \<and> valid_custom_code c)
            \<and> attempt links e u uid (code_at e customCode 0) 0 t
                 = Inl (Refused (UniqueViolation ''short_code''))
        | Inl AllocationExhausted \<Rightarrow>
            t' = t \<and> a = retry_bound \<and> valid_url e u \<and> customCode = None
            \<and> attempt links e u uid (code_at e customCode (a - 1)) (a - 1) t
                 = Inl (Refused (UniqueViolation ''short_code''))
        | Inl StoreUnavailable \<Rightarrow>
            t' = t \<and> 0 < a \<and> valid_url e u
            \<and> (\<forall>c. customCode = Some c \<longrightarrow> valid_custom_code c)
            \<and> (\<exists>f. attempt links e u uid (code_at e customCode (a - 1)) (a - 1) t = Inl f
                     \<and> \<not> is_code_collision f))
     \<and> (valid_url e u \<and> (\<forall>c. customCode = Some c \<longrightarrow> valid_custom_code c)
          \<and> nul_free u \<and> nul_free uid \<and> nul_free (fresh_id e 0)
          \<and> nul_free (code_at e customCode 0) \<and> length (code_at e customCode 0) \<le> 20
          \<and> store_fault e 0 = None
          \<and> \<not> collides ''id'' (VText (fresh_id e 0)) t
          \<and> \<not> collides ''short_code'' (VText (code_at e customCode 0)) t
        \<longrightarrow> (\<exists>r. res = Inr r) \<and> a = 1)"
proof -
  have "\<exists>res t' a. allocate links e u uid customCode t = (res, t', a)
          \<and> classified e u uid customCode t res t' a"
  proof (cases "valid_url e u")
    case False
    then show ?thesis by (simp add: allocate_def classified_def)
  next
    case True
    then show ?thesis
      by (cases customCode) (simp_all add: classified_generated classified_custom)
  qed
  then obtain res t' a where al: "allocate links e u uid customCode t = (res, t', a)"
    and cl: "classified e u uid customCode t res t' a"
    by blast
  have live: "(\<exists>r. res = Inr r) \<and> a = 1"
    if "valid_url e u \<and> (\<forall>c. customCode = Some c \<longrightarrow> valid_custom_code c)
          \<and> nul_free u \<and> nul_free uid \<and> nul_free (fresh_id e 0)
          \<and> nul_free (code_at e customCode 0) \<and> length (code_at e customCode 0) \<le> 20
          \<and> store_fault e 0 = None
          \<and> \<not> collides ''id'' (VText (fresh_id e 0)) t
          \<and> \<not> collides ''short_code'' (VText (code_at e customCode 0)) t"
  proof -
    from that have "\<exists>r t'. allocate links e u uid customCode t = (Inr r, t', 1)"
      by (intro first_attempt_succeeds) simp_all
    with al show ?thesis by auto
  qed
  from al cl live show ?thesis
    unfolding classified_def by (intro exI[of _ res] exI[of _ t'] exI[of _ a]) simp
qed

theorem allocate_total_witness:
  "\<not> collides ''short_code'' (VText ''aaaaaaaa'')
       [link_row ''id-1'' ''uid'' ''https://example.com'' ''my-link'' 10 10]
   \<and> allocate links
        \<lparr>valid_url = (\<lambda>s. take 8 s = ''https://''), candidate = (\<lambda>k. ''aaaaaaaa''),
         fresh_id = (\<lambda>k. ''id-2''), store_now = (\<lambda>k. 11), store_fault = (\<lambda>k. None)\<rparr>
        ''https://other.com'' ''uid2'' None
        [link_row ''id-1'' ''uid'' ''https://example.com'' ''my-link'' 10 10]
     = (Inr (link_row ''id-2'' ''uid2'' ''https://other.com'' ''aaaaaaaa'' 11 11),
        [link_row ''id-1'' ''uid'' ''https://example.com'' ''my-link'' 10 10]
          @ [link_row ''id-2'' ''uid2'' ''https://other.com'' ''aaaaaaaa'' 11 11], 1)"
proof -
  let ?e = "\<lparr>valid_url = (\<lambda>s. take 8 s = ''https://''), candidate = (\<lambda>k. ''aaaaaaaa''),
         fresh_id = (\<lambda>k. ''id-2''), store_now = (\<lambda>k. 11), store_fault = (\<lambda>k. None)\<rparr>"
  let ?t = "[link_row ''id-1'' ''uid'' ''https://example.com'' ''my-link'' 10 10]"
  have free: "\<not> collides ''short_code'' (VText ''aaaaaaaa'') ?t"
    by (simp add: collides_Cons collides_Nil link_row_cells)
  have pre: "valid_url ?e ''https://other.com'' \<and> (\<forall>c. (None :: string option) = Some c \<longrightarrow> valid_custom_code c)
          \<and> nul_free ''https://other.com'' \<and> nul_free ''uid2'' \<and> nul_free (fresh_id ?e 0)
          \<and> nul_free (code_at ?e None 0) \<and> length (code_at ?e None 0) \<le> 20
          \<and> store_fault ?e 0 = None
          \<and> \<not> collides ''id'' (VText (fresh_id ?e 0)) ?t
          \<and> \<not> collides ''short_code'' (VText (code_at ?e None 0)) ?t"
    by (simp add: nul_free_literals code_at_def collides_Cons collides_Nil link_row_cells)
  have al: "allocate links ?e ''https://other.com'' ''uid2'' None ?t
     = (Inr (link_row ''id-2'' ''uid2'' ''https://other.com'' ''aaaaaaaa'' 11 11),
        ?t @ [link_row ''id-2'' ''uid2'' ''https://other.com'' ''aaaaaaaa'' 11 11], 1)"
    using allocate_total[of ?e "''https://other.com''" "''uid2''" None ?t] pre
    by (elim exE conjE) (clarsimp simp: code_at_def)
  with free show ?thesis by (rule conjI)
qed

subsection \<open>C6: bounds on the persisted columns\<close>

text \<open>
  Claim C6 says that in the persisted schema the short code has at most 20 characters and
  the id is never null or empty. The empty string is accepted as an id: an insert with
  \<open>id = ''\<close> into the empty table succeeds, and the row is kept.
\<close>

theorem empty_id_persisted:
  "run links [Insert 1 [(''id'', VText ''''), (''user_id'', VText ''u1''),
       (''url'', VText ''https://example.com''), (''short_code'', VText ''my-link'')]] []
   = [[(''id'', VText ''''), (''user_id'', VText ''u1''), (''url'', VText ''https://example.com''),
       (''short_code'', VText ''my-link''), (''created_at'', VTime 1), (''updated_at'', VTime 1)]]"
  by (simp add: store_eval)

text \<open>
  Claim C6, as the declaration in \<open>db/schema.ts\<close> has it: the short code is declared
  \<open>varchar(20)\<close> and NOT NULL and the id is the primary key, and in every table reached
  from the empty one by any sequence of statements every row has a short code of at most
  20 characters and an id that is a text, not NULL. Nothing is said about the id being
  non-empty.
\<close>

theorem persisted_row_bounds:
  "(\<exists>c. column_named links ''short_code'' = Some c \<and> col_type c = PgVarchar 20 \<and> not_null c)
   \<and> (\<exists>c. column_named links ''id'' = Some c \<and> primary_key c)
   \<and> (\<forall>ops. \<forall>r \<in> set (run links ops []).
         (\<exists>s. shortCode r = VText s \<and> length s \<le> 20) \<and> (\<exists>i. link_id r = VText i))"
proof (intro conjI allI ballI)
  show "\<exists>c. column_named links ''short_code'' = Some c \<and> col_type c = PgVarchar 20 \<and> not_null c"
    by (simp add: column_named_def links_def)
  show "\<exists>c. column_named links ''id'' = Some c \<and> primary_key c"
    by (simp add: column_named_def links_def)
next
  fix ops r assume r: "r \<in> set (run links ops [])"
  from short_code_varchar obtain c where c: "c \<in> set links" "col_name c = ''short_code''"
    "col_type c = PgVarchar 20" "must_be_present c" by blast
  from reachable_cell[OF well_formed_links(1) c(1,4) r] c(2,3)
  show "\<exists>s. shortCode r = VText s \<and> length s \<le> 20"
    by (cases "cell r ''short_code''") (auto simp: shortCode_def fits_def)
next
  fix ops r assume r: "r \<in> set (run links ops [])"
  from id_in_links(1) obtain c where c: "c \<in> set links" "col_name c = ''id''"
    "col_type c = PgText" "must_be_present c" by blast
  from reachable_cell[OF well_formed_links(1) c(1,4) r] c(2,3)
  show "\<exists>i. link_id r = VText i"
    by (cases "cell r ''id''") (auto simp: link_id_def fits_def)
qed

lemma run_trailing_spaces:
  "run links [Insert 7 [(''id'', VText ''k1''), (''user_id'', VText ''u1''),
       (''url'', VText ''https://example.com''), (''short_code'', VText ''abcdefghijklmnopqrst  '')]] []
   = [[(''id'', VText ''k1''), (''user_id'', VText ''u1''), (''url'', VText ''https://example.com''),
       (''short_code'', VText ''abcdefghijklmnopqrst''), (''created_at'', VTime 7), (''updated_at'', VTime 7)]]"
  by (simp add: store_eval)

theorem persisted_row_bounds_witness:
  "[(''id'', VText ''k1''), (''user_id'', VText ''u1''), (''url'', VText ''https://example.com''),
       (''short_code'', VText ''abcdefghijklmnopqrst''), (''created_at'', VTime 7), (''updated_at'', VTime 7)]
     \<in> set (run links [Insert 7 [(''id'', VText ''k1''), (''user_id'', VText ''u1''),
       (''url'', VText ''https://example.com''), (''short_code'', VText ''abcdefghijklmnopqrst  '')]] [])
   \<and> (\<exists>s. shortCode [(''id'', VText ''k1''), (''user_id'', VText ''u1''), (''url'', VText ''https://example.com''),
       (''short_code'', VText ''abcdefghijklmnopqrst''), (''created_at'', VTime 7), (''updated_at'', VTime 7)] = VText s
          \<and> length s \<le> 20)"
  (is "?r \<in> set ?t \<and> _")
proof -
  have m: "?r \<in> set ?t" by (simp add: run_trailing_spaces)
  with persisted_row_bounds show ?thesis by blast
qed

text \<open>
  The migration declares \<open>short_code\<close> as \<open>text\<close>: a table created from it takes a short
  code of 21 characters, which the declaration of \<open>db/schema.ts\<close> refuses.
\<close>

lemma migration_short_code_unbounded:
  "run links_sql [Insert 1 [(''id'', VText ''k1''), (''user_id'', VText ''u1''),
       (''url'', VText ''https://example.com''), (''short_code'', VText ''abcdefghijklmnopqrstu'')]] []
   = [[(''id'', VText ''k1''), (''user_id'', VText ''u1''), (''url'', VText ''https://example.com''),
       (''short_code'', VText ''abcdefghijklmnopqrstu''), (''created_at'', VTime 1), (''updated_at'', VTime 1)]]"
  "insert_row links 1 [(''id'', VText ''k1''), (''user_id'', VText ''u1''),
       (''url'', VText ''https://example.com''), (''short_code'', VText ''abcdefghijklmnopqrstu'')] []
   = Inl (StringTooLong ''short_code'')"
  by (simp_all add: store_eval)

subsection \<open>C7: timestamps\<close>

text \<open>
  Claim C7 says that \<open>updatedAt\<close> is refreshed on every mutation of a row. No column of
  the table has an on-update value, so an update that changes the URL of a row at time 9
  leaves \<open>updated_at\<close> at the time of the insert, 1.
\<close>

theorem updated_at_not_refreshed:
  "run links
     [Insert 1 [(''id'', VText ''k1''), (''user_id'', VText ''u1''),
        (''url'', VText ''https://example.com''), (''short_code'', VText ''my-link'')],
      Update 9 [(''url'', VText ''https://changed.example'')] ''id'' (VText ''k1'')] []
   = [[(''id'', VText ''k1''), (''user_id'', VText ''u1''), (''url'', VText ''https://changed.example''),
       (''short_code'', VText ''my-link''), (''created_at'', VTime 1), (''updated_at'', VTime 1)]]"
  by (simp add: store_eval)

text \<open>
  Claim C7, as the schema has it: \<open>created_at\<close> and \<open>updated_at\<close> are set by the store to
  its \<open>now()\<close> when the insert leaves them out; an insert appends one row and leaves every
  existing row as it was; an update changes \<open>created_at\<close> or \<open>updated_at\<close> of no row
  unless the statement sets that column itself.
\<close>

theorem timestamps_by_default_only:
  assumes td: "td = links \<or> td = links_sql"
  shows "(insert_row td now vals t = Inr t' \<longrightarrow>
            (\<exists>r. t' = t @ [r]
               \<and> (map_of vals ''created_at'' = None \<longrightarrow> createdAt r = VTime now)
               \<and> (map_of vals ''updated_at'' = None \<longrightarrow> updatedAt r = VTime now)))
       \<and> (update_rows td now sets n v t = Inr t' \<longrightarrow>
            (map_of sets ''created_at'' = None \<longrightarrow> map createdAt t' = map createdAt t)
          \<and> (map_of sets ''updated_at'' = None \<longrightarrow> map updatedAt t' = map updatedAt t))"
  using insert_timestamps[OF td] update_timestamps[OF td] by (intro conjI impI) simp_all

theorem timestamps_by_default_only_witness:
  "insert_row links 5 [(''id'', VText ''k1''), (''user_id'', VText ''u1''),
        (''url'', VText ''https://example.com''), (''short_code'', VText ''my-link'')] []
     = Inr [[(''id'', VText ''k1''), (''user_id'', VText ''u1''), (''url'', VText ''https://example.com''),
       (''short_code'', VText ''my-link''), (''created_at'', VTime 5), (''updated_at'', VTime 5)]]
   \<and> update_rows links 9 [(''url'', VText ''https://changed.example'')] ''id'' (VText ''k1'')
       [[(''id'', VText ''k1''), (''user_id'', VText ''u1''), (''url'', VText ''https://example.com''),
       (''short_code'', VText ''my-link''), (''created_at'', VTime 5), (''updated_at'', VTime 5)]]
     = Inr [[(''id'', VText ''k1''), (''user_id'', VText ''u1''), (''url'', VText ''https://changed.example''),
       (''short_code'', VText ''my-link''), (''created_at'', VTime 5), (''updated_at'', VTime 5)]]
   \<and> map updatedAt [[(''id'', VText ''k1''), (''user_id'', VText ''u1''), (''url'', VText ''https://changed.example''),
       (''short_code'', VText ''my-link''), (''created_at'', VTime 5), (''updated_at'', VTime 5)]]
     = map updatedAt [[(''id'', VText ''k1''), (''user_id'', VText ''u1''), (''url'', VText ''https://example.com''),
       (''short_code'', VText ''my-link''), (''created_at'', VTime 5), (''updated_at'', VTime 5)]]"
  (is "?ins = Inr ?t1 \<and> ?upd = Inr ?t2 \<and> _")
proof -
  have i: "?ins = Inr ?t1" by (simp add: store_eval)
  have u: "?upd = Inr ?t2" by (simp add: store_eval)
  have td: "links = links \<or> links = links_sql" by simp
  have s: "map_of [(''url'', VText ''https://changed.example'')] ''updated_at'' = None" by simp
  from timestamps_by_default_only[OF td, where now = 9 and t = ?t1 and t' = ?t2
      and sets = "[(''url'', VText ''https://changed.example'')]" and n = "''id''" and v = "VText ''k1''",
      THEN conjunct2, THEN mp, OF u, THEN conjunct2, THEN mp, OF s]
  have "map updatedAt ?t2 = map updatedAt ?t1" .
  with i u show ?thesis by (intro conjI)
qed

subsection \<open>C8: two allocations of one custom code\<close>




subsection \<open>C9: the seeded rows\<close>

text \<open>
  Claim C9. \<open>exampleLinks\<close> has exactly 10 entries; their short codes are pairwise
  distinct, non-empty, at most 10 characters long (so within the bound of 20) and made of
  lowercase letters, digits and hyphens only; every row the script builds is owned by the
  same user. Run on an empty table, under either declaration of \<open>links\<close>, the script
  never fails with a uniqueness violation on the short code, whatever \<open>nanoid\<close> returns;
  and when the ten identifiers drawn are pairwise distinct, all ten inserts succeed and
  the table holds exactly the ten rows built from \<open>exampleLinks\<close>, in order.
\<close>

theorem seed_example_links:
  "length exampleLinks = 10
   \<and> distinct (map snd exampleLinks)
   \<and> (\<forall>link\<in>set exampleLinks.
          snd link \<noteq> [] \<and> length (snd link) \<le> 10 \<and> list_all seed_code_char (snd link)
          \<and> length (snd link) \<le> 20)
   \<and> (\<forall>e k link. userId (seed_values e k link) = VText seed_userId)
   \<and> (\<forall>td e. td = links \<or> td = links_sql \<longrightarrow>
          fst (seedExampleLinks td e []) \<noteq> Some (UniqueViolation ''short_code''))
   \<and> (\<forall>td e. td = links \<or> td = links_sql \<longrightarrow> distinct (map (nanoid e) [0..<10]) \<longrightarrow>
          seedExampleLinks td e []
            = (None, map (\<lambda>(k, link). seed_values e k link) (zip [0..<10] exampleLinks)))"
proof -
  have bound: "\<forall>link\<in>set exampleLinks. length (snd link) \<le> 20"
    using exampleLinks_facts(3) by fastforce
  have free: "\<forall>link\<in>set exampleLinks. \<not> collides ''short_code'' (VText (snd link)) []"
    by (simp add: collides_def)
  have a: "fst (seedExampleLinks td e []) \<noteq> Some (UniqueViolation ''short_code'')"
    if "td = links \<or> td = links_sql" for td e
    unfolding seedExampleLinks_def
    using that bound exampleLinks_facts(2) free by (rule seed_loop_no_code_collision)
  have b: "seedExampleLinks td e []
            = (None, map (\<lambda>(k, link). seed_values e k link) (zip [0..<10] exampleLinks))"
    if td: "td = links \<or> td = links_sql" and d: "distinct (map (nanoid e) [0..<10])" for td e
  proof -
    from d have d': "distinct (map (nanoid e) [0..<0 + length exampleLinks])"
      by (simp add: exampleLinks_facts(1))
    have "\<forall>j\<in>{0..<0 + length exampleLinks}. \<not> collides ''id'' (VText (nanoid e j)) []"
      by (simp add: collides_def)
    from seed_loop_succeeds[OF td bound exampleLinks_facts(2) free d' this]
    show ?thesis by (simp add: seedExampleLinks_def exampleLinks_facts(1))
  qed
  have c: "userId (seed_values e k link) = VText seed_userId" for e k link
    by (simp add: userId_def seed_values_cells)
  from exampleLinks_facts bound a b c show ?thesis
    by (intro conjI allI impI ballI) simp_all
qed

theorem seed_example_links_witness:
  "distinct (map (nanoid \<lparr>nanoid = (\<lambda>k. replicate (Suc k) CHR ''a''), newDate = int, dbNow = int\<rparr>) [0..<10])
   \<and> fst (seedExampleLinks links \<lparr>nanoid = (\<lambda>k. replicate (Suc k) CHR ''a''), newDate = int, dbNow = int\<rparr> []) = None
   \<and> map shortCode (snd (seedExampleLinks links \<lparr>nanoid = (\<lambda>k. replicate (Suc k) CHR ''a''), newDate = int, dbNow = int\<rparr> []))
      = map (\<lambda>link. VText (snd link)) exampleLinks"
  (is "distinct (map (nanoid ?e) _) \<and> _")
proof -
  have "inj (\<lambda>k. replicate (Suc k) CHR ''a'')"
    by (rule injI) (metis length_replicate nat.inject)
  then have d: "distinct (map (nanoid ?e) [0..<10])"
    by (simp add: distinct_map inj_on_def)
  have "links = links \<or> links = links_sql" by simp
  with seed_example_links d have
    "seedExampleLinks links ?e [] = (None, map (\<lambda>(k, link). seed_values ?e k link) (zip [0..<10] exampleLinks))"
    by (elim conjE allE impE)
  moreover have "map shortCode (map (\<lambda>(k, link). seed_values ?e k link) (zip [0..<10] exampleLinks))
      = map (\<lambda>link. VText (snd link)) exampleLinks"
    by (rule seeded_short_codes) (simp add: exampleLinks_facts(1))
  ultimately show ?thesis using d by simp
qed

subsection \<open>C10: the id column has no default\<close>

text \<open>
  Claim C10 says that every insert must supply a non-empty id. The store does not ask for
  that much: an insert that supplies the empty string as id is accepted.
\<close>

theorem empty_id_accepted:
  "insert_row links_sql 1 [(''id'', VText ''''), (''user_id'', VText ''u1''),
       (''url'', VText ''https://example.com''), (''short_code'', VText ''my-link'')] []
   = Inr [[(''id'', VText ''''), (''user_id'', VText ''u1''), (''url'', VText ''https://example.com''),
       (''short_code'', VText ''my-link''), (''created_at'', VTime 1), (''updated_at'', VTime 1)]]"
  by (simp add: store_eval)

text \<open>
  Claim C10, as the store enforces it: the id column has no default in either
  declaration, unlike \<open>created_at\<close> and \<open>updated_at\<close>, which default to \<open>now()\<close>; so an
  insert that leaves the id out, or supplies NULL, is rejected whatever else it supplies:
  the store never generates an id. The seed script supplies \<open>nanoid()\<close> as the id of every
  row it inserts.
\<close>

theorem id_has_no_default:
  "(\<exists>c. column_named links ''id'' = Some c \<and> \<not> default_now c)
   \<and> (\<exists>c. column_named links_sql ''id'' = Some c \<and> \<not> default_now c)
   \<and> (\<exists>c. column_named links ''created_at'' = Some c \<and> default_now c)
   \<and> (\<exists>c. column_named links_sql ''created_at'' = Some c \<and> default_now c)
   \<and> (\<exists>c. column_named links ''updated_at'' = Some c \<and> default_now c)
   \<and> (\<exists>c. column_named links_sql ''updated_at'' = Some c \<and> default_now c)
   \<and> (\<forall>td now vals t. td = links \<or> td = links_sql \<longrightarrow>
          map_of vals ''id'' = None \<or> map_of vals ''id'' = Some VNull \<longrightarrow>
          (\<exists>err. insert_row td now vals t = Inl err))
   \<and> (\<forall>e k link. map_of (seed_values e k link) ''id'' = Some (VText (nanoid e k)))"
proof -
  have a: "\<exists>err. insert_row td now vals t = Inl err"
    if td: "td = links \<or> td = links_sql"
      and v: "map_of vals ''id'' = None \<or> map_of vals ''id'' = Some VNull"
    for td now vals t
  proof -
    have wf: "well_formed td" using td well_formed_links by blast
    from td id_in_links obtain c where c: "c \<in> set td" "col_name c = ''id''"
      "must_be_present c" "\<not> default_now c" by blast
    from v c(2) have "map_of vals (col_name c) = None \<or> map_of vals (col_name c) = Some VNull"
      by simp
    with wf c(1,3,4) show ?thesis by (rule insert_without_value_fails)
  qed
  have b: "map_of (seed_values e k link) ''id'' = Some (VText (nanoid e k))" for e k link
    by (simp add: seed_values_def)
  from default_columns a b show ?thesis
    by (intro conjI allI impI) simp_all
qed

theorem id_has_no_default_witness:
  "map_of [(''user_id'', VText ''u1''), (''url'', VText ''https://example.com''),
           (''short_code'', VText ''my-link'')] ''id'' = None
   \<and> (\<exists>err. insert_row links 1 [(''user_id'', VText ''u1''), (''url'', VText ''https://example.com''),
           (''short_code'', VText ''my-link'')] [] = Inl err)"
proof -
  have v: "map_of [(''user_id'', VText ''u1''), (''url'', VText ''https://example.com''),
           (''short_code'', VText ''my-link'')] ''id'' = None"
    by simp
  have "links = links \<or> links = links_sql" by simp
  with id_has_no_default v show ?thesis
    by (elim conjE allE impE) simp_all
qed

text \<open>
  The error of an insert that supplies everything but the id is the NOT NULL violation on
  \<open>id\<close>.
\<close>

lemma omitted_id_error:
  "insert_row links 1 [(''user_id'', VText ''u1''), (''url'', VText ''https://example.com''),
           (''short_code'', VText ''my-link'')] [] = Inl (NotNullViolation ''id'')"
  by (simp add: store_eval)

end
